theory Spec2Isabelle
  imports Main "HOL-Library.Word" "HOL-Library.Multiset"
begin

section \<open>Data model\<close>

text \<open>
  Bytes are the elements of a \<^verbatim>\<open>Uint8Array\<close>.  An address is the hex string viem hands
  around (\<^verbatim>\<open>toHex(data.slice(i, i + 20))\<close>); \<^verbatim>\<open>toHex\<close> is injective, so an address is
  modelled by the bytes it spells.
\<close>

type_synonym byte = "8 word"
type_synonym bytes = "byte list"
type_synonym address = bytes

text \<open>The objects the loader builds: \<^verbatim>\<open>{ index, address }\<close>, \<^verbatim>\<open>{ index, data }\<close>,
  \<^verbatim>\<open>{ success, data }\<close> (the \<^verbatim>\<open>error\<close> text of a failed result is only ever logged and is
  left out) and the \<^verbatim>\<open>{ success, returnData }\<close> tuples of Multicall3.\<close>

record leaf =
  index :: nat
  address :: address

record chunk =
  chunk_index :: nat
  chunk_data :: "bytes option"

record fetch_result =
  success :: bool
  data :: "bytes option"

record slot =
  slot_success :: bool
  returnData :: bytes

datatype error = RpcError | TypeError

datatype logmsg =
    TraverseFailed address
  | FoundLeaves nat
  | ChunkFailed nat
  | BatchFailed
  | LoadedFailed nat nat
  | RetryRound nat nat
  | PermanentlyFailed nat
  | Complete nat nat

datatype event =
    Sleep nat
  | ReadCall address
  | AggregateCall "address list"
  | Log logmsg

text \<open>
  The remote side.  \<open>readPage w a n\<close> is what the \<open>n\<close>-th \<^verbatim>\<open>read()\<close> call on the page at
  \<open>a\<close> answers (\<open>None\<close>: the call throws); \<open>aggregate3 w n addrs\<close> is what the \<open>n\<close>-th
  Multicall3 call answers for the targets \<open>addrs\<close> (\<open>None\<close>: the call itself throws);
  \<open>decodeAbiParameters\<close> is viem's decoder of one \<^verbatim>\<open>bytes\<close> value (\<open>None\<close>: it throws).
  The remaining fields are the URL parameters and the \<^verbatim>\<open>/api/config\<close> answer the
  loaders read at start-up.
\<close>

datatype url_param = NoParam | NotANumber | Num nat

record world =
  readPage :: "address \<Rightarrow> nat \<Rightarrow> bytes option"
  aggregate3 :: "nat \<Rightarrow> address list \<Rightarrow> slot list option"
  decodeAbiParameters :: "bytes \<Rightarrow> bytes option"
  USE_MULTICALL :: bool
  urlBatchSize :: url_param
  cfgBatchSize :: "nat option"
  cfgChunkSize :: "nat option"

text \<open>What a run has done so far: how often each page was read, how many aggregate calls
  were made, and the sleeps, remote calls and log lines in the order they happened.  The
  DOM updates (\<^verbatim>\<open>setPhase\<close>, the chunk grid, the donut chart and its counters) are
  presentation and are not modelled.\<close>

record state =
  reads :: "address \<Rightarrow> nat"
  aggs :: nat
  trace :: "event list"

definition sleep :: "nat \<Rightarrow> state \<Rightarrow> state" where
  "sleep ms s = s\<lparr>trace := trace s @ [Sleep ms]\<rparr>"

definition log :: "logmsg \<Rightarrow> state \<Rightarrow> state" where
  "log m s = s\<lparr>trace := trace s @ [Log m]\<rparr>"

definition readContract :: "world \<Rightarrow> address \<Rightarrow> state \<Rightarrow> bytes option \<times> state" where
  "readContract w a s =
     (readPage w a (reads s a),
      s\<lparr>reads := (reads s)(a := Suc (reads s a)), trace := trace s @ [ReadCall a]\<rparr>)"

definition readAggregate3 :: "world \<Rightarrow> address list \<Rightarrow> state \<Rightarrow> slot list option \<times> state" where
  "readAggregate3 w addrs s =
     (aggregate3 w (aggs s) addrs,
      s\<lparr>aggs := Suc (aggs s), trace := trace s @ [AggregateCall addrs]\<rparr>)"

text \<open>\<^verbatim>\<open>BATCH_SIZE = parseInt(params.get('batchSize')) || 100\<close>, overwritten by
  \<^verbatim>\<open>config.batchSize\<close> when the URL has no such parameter and the configured value is truthy;
  \<^verbatim>\<open>CHUNK_SIZE = config.chunkSize || 15000\<close>.  Sizes are naturals.\<close>

definition BATCH_SIZE :: "world \<Rightarrow> nat" where
  "BATCH_SIZE w =
     (case urlBatchSize w of
        NoParam \<Rightarrow> (case cfgBatchSize w of
                      Some c \<Rightarrow> if c \<noteq> 0 then c else 100
                    | None \<Rightarrow> 100)
      | NotANumber \<Rightarrow> 100
      | Num n \<Rightarrow> if n = 0 then 100 else n)"

definition CHUNK_SIZE :: "world \<Rightarrow> nat" where
  "CHUNK_SIZE w = (case cfgChunkSize w of Some c \<Rightarrow> if c = 0 then 15000 else c | None \<Rightarrow> 15000)"

section \<open>Single-address fetch\<close>

text \<open>
  \<^verbatim>\<open>fetchChunkData(address, retries = 3)\<close>: the loop over \<^verbatim>\<open>i\<close>.  A call resolves with the
  bytes, rejects with the last error, or (when the loop body never runs) resolves with
  \<^verbatim>\<open>undefined\<close>.  The copies of the function differ in the pause after a failed attempt
  only, which is the parameter \<open>delay\<close>: \<^verbatim>\<open>Math.min(200 * Math.pow(2, i), 2000)\<close> in
  \<^verbatim>\<open>loader.js\<close>.
\<close>

datatype fetched = Data bytes | Rejected | NoValue

function fetchAttempts ::
  "(nat \<Rightarrow> nat) \<Rightarrow> world \<Rightarrow> address \<Rightarrow> nat \<Rightarrow> nat \<Rightarrow> state \<Rightarrow> fetched \<times> state" where
  "fetchAttempts delay w a retries i s =
     (if i < retries then
        (case readContract w a s of
           (Some d, s1) \<Rightarrow> (Data d, s1)
         | (None, s1) \<Rightarrow>
             if i = retries - 1 then (Rejected, s1)
             else fetchAttempts delay w a retries (Suc i) (sleep (delay i) s1))
      else (NoValue, s))"
  by pat_completeness auto
termination
  by (relation "measure (\<lambda>(delay, w, a, retries, i, s). retries - i)") auto

declare fetchAttempts.simps [simp del]

definition loaderDelay :: "nat \<Rightarrow> nat" where
  "loaderDelay i = min (200 * 2 ^ i) 2000"

definition fetchChunkData :: "world \<Rightarrow> address \<Rightarrow> nat \<Rightarrow> state \<Rightarrow> fetched \<times> state" where
  "fetchChunkData w a retries s = fetchAttempts loaderDelay w a retries 0 s"

section \<open>Tree discovery\<close>

text \<open>The child addresses of a branch payload:
  \<^verbatim>\<open>for (let i = 0; i < data.length; i += 20) childAddrs.push(toHex(data.slice(i, i + 20)))\<close>.\<close>

function childAddrs :: "bytes \<Rightarrow> address list" where
  "childAddrs d = (if d = [] then [] else take 20 d # childAddrs (drop 20 d))"
  by pat_completeness auto
termination
  by (relation "measure length") auto

declare childAddrs.simps [simp del]

text \<open>\<^verbatim>\<open>collectLeafAddresses\<close> and its closure \<^verbatim>\<open>traverseNode\<close>, which shares the array
  \<^verbatim>\<open>leaves\<close> and the counter \<^verbatim>\<open>currentIndex\<close> (the first two components of the triple).
  The \<^verbatim>\<open>try\<close> spans the read and the loop over the children: an error of either is logged
  for this node and thrown again.\<close>

type_synonym scan = "leaf list \<times> nat \<times> state"

fun traverseNode :: "world \<Rightarrow> address \<Rightarrow> nat \<Rightarrow> scan \<Rightarrow> error option \<times> scan"
  and traverseChildren :: "world \<Rightarrow> address list \<Rightarrow> nat \<Rightarrow> scan \<Rightarrow> error option \<times> scan" where
  "traverseNode w a 0 (leaves, currentIndex, s) =
     (None, leaves @ [\<lparr>index = currentIndex, address = a\<rparr>], Suc currentIndex, s)"
| "traverseNode w a (Suc d) (leaves, currentIndex, s) =
     (case fetchChunkData w a 3 s of
        (Data bs, s1) \<Rightarrow>
          (case traverseChildren w (childAddrs bs) d (leaves, currentIndex, s1) of
             (None, sc) \<Rightarrow> (None, sc)
           | (Some e, leaves', currentIndex', s2) \<Rightarrow>
               (Some e, leaves', currentIndex', log (TraverseFailed a) s2))
      | (Rejected, s1) \<Rightarrow> (Some RpcError, leaves, currentIndex, log (TraverseFailed a) s1)
      | (NoValue, s1) \<Rightarrow> (Some TypeError, leaves, currentIndex, log (TraverseFailed a) s1))"
| "traverseChildren w [] d sc = (None, sc)"
| "traverseChildren w (c # cs) d sc =
     (case traverseNode w c d sc of
        (None, sc') \<Rightarrow> traverseChildren w cs d sc'
      | (Some e, sc') \<Rightarrow> (Some e, sc'))"

definition collectLeafAddresses ::
  "world \<Rightarrow> address \<Rightarrow> nat \<Rightarrow> state \<Rightarrow> (error + leaf list) \<times> state" where
  "collectLeafAddresses w rootChunk depth s =
     (case traverseNode w rootChunk depth ([], 0, s) of
        (None, leaves, currentIndex, s') \<Rightarrow> (Inr leaves, s')
      | (Some e, leaves, currentIndex, s') \<Rightarrow> (Inl e, s'))"

section \<open>Batch fetch\<close>

text \<open>\<^verbatim>\<open>fetchChunksIndividually\<close>: one result object per address, in order.  A rejected fetch
  gives \<^verbatim>\<open>{ success: false }\<close>; a fetch that resolved gives \<^verbatim>\<open>{ success: true, data }\<close>.\<close>

definition resultOf :: "fetched \<Rightarrow> fetch_result" where
  "resultOf f =
     (case f of
        Data d \<Rightarrow> \<lparr>success = True, data = Some d\<rparr>
      | NoValue \<Rightarrow> \<lparr>success = True, data = None\<rparr>
      | Rejected \<Rightarrow> \<lparr>success = False, data = None\<rparr>)"

fun individually ::
  "(nat \<Rightarrow> nat) \<Rightarrow> world \<Rightarrow> address list \<Rightarrow> nat \<Rightarrow> state \<Rightarrow> fetch_result list \<times> state" where
  "individually delay w [] retries s = ([], s)"
| "individually delay w (addr # addrs) retries s =
     (case fetchAttempts delay w addr retries 0 s of
        (f, s1) \<Rightarrow>
          (case individually delay w addrs retries s1 of
             (results, s2) \<Rightarrow> (resultOf f # results, s2)))"

definition fetchChunksIndividually ::
  "world \<Rightarrow> address list \<Rightarrow> nat \<Rightarrow> state \<Rightarrow> fetch_result list \<times> state" where
  "fetchChunksIndividually w addresses retries s = individually loaderDelay w addresses retries s"

text \<open>The callback of \<^verbatim>\<open>results.map\<close> in \<^verbatim>\<open>fetchChunksBatch\<close>: a slot counts when Multicall3
  reports success, its return data is not \<^verbatim>\<open>'0x'\<close>, and the data decodes.\<close>

definition parseResult :: "world \<Rightarrow> slot \<Rightarrow> fetch_result" where
  "parseResult w r =
     (if slot_success r \<and> returnData r \<noteq> [] then
        (case decodeAbiParameters w (returnData r) of
           Some d \<Rightarrow> \<lparr>success = True, data = Some d\<rparr>
         | None \<Rightarrow> \<lparr>success = False, data = None\<rparr>)
      else \<lparr>success = False, data = None\<rparr>)"

text \<open>\<^verbatim>\<open>fetchChunksBatch(addresses, retries = 3)\<close>.  The result is \<open>None\<close> when the function
  resolves with \<^verbatim>\<open>undefined\<close> (the loop body never ran).\<close>

function batchAttempts ::
  "(nat \<Rightarrow> nat) \<Rightarrow> world \<Rightarrow> address list \<Rightarrow> nat \<Rightarrow> nat \<Rightarrow> state
    \<Rightarrow> fetch_result list option \<times> state" where
  "batchAttempts delay w addresses retries i s =
     (if i < retries then
        (case readAggregate3 w addresses s of
           (Some results, s1) \<Rightarrow> (Some (map (parseResult w) results), s1)
         | (None, s1) \<Rightarrow>
             if i = retries - 1 then
               (case individually delay w addresses retries s1 of
                  (results, s2) \<Rightarrow> (Some results, s2))
             else batchAttempts delay w addresses retries (Suc i)
                    (sleep (min (300 * 2 ^ i) 3000) s1))
      else (None, s))"
  by pat_completeness auto
termination
  by (relation "measure (\<lambda>(delay, w, addresses, retries, i, s). retries - i)") auto

declare batchAttempts.simps [simp del]

definition batchOrIndividually ::
  "(nat \<Rightarrow> nat) \<Rightarrow> world \<Rightarrow> address list \<Rightarrow> nat \<Rightarrow> state \<Rightarrow> fetch_result list option \<times> state" where
  "batchOrIndividually delay w addresses retries s =
     (if \<not> USE_MULTICALL w \<or> addresses = [] then
        (case individually delay w addresses retries s of
           (results, s1) \<Rightarrow> (Some results, s1))
      else batchAttempts delay w addresses retries 0 s)"

definition fetchChunksBatch ::
  "world \<Rightarrow> address list \<Rightarrow> nat \<Rightarrow> state \<Rightarrow> fetch_result list option \<times> state" where
  "fetchChunksBatch w addresses retries s = batchOrIndividually loaderDelay w addresses retries s"

section \<open>Loading in batches\<close>

text \<open>
  The callback of \<^verbatim>\<open>results.forEach\<close> in \<^verbatim>\<open>loadChunksInBatches\<close>, run over the results from
  position \<open>idx\<close> on.  \<^verbatim>\<open>batch[idx]\<close> is \<^verbatim>\<open>undefined\<close> beyond the batch: reading its
  \<^verbatim>\<open>index\<close> throws, in the failure branch only after \<^verbatim>\<open>failed.push(leaf)\<close> has pushed
  \<^verbatim>\<open>undefined\<close> (\<open>None\<close>).  The flag says whether the loop threw.
\<close>

type_synonym loading = "chunk list \<times> leaf option list \<times> state"

fun processResults :: "leaf list \<Rightarrow> fetch_result list \<Rightarrow> nat \<Rightarrow> loading \<Rightarrow> bool \<times> loading" where
  "processResults batch [] idx acc = (False, acc)"
| "processResults batch (r # rs) idx (chunks, failed, s) =
     (if idx < length batch then
        (if success r \<and> data r \<noteq> None then
           processResults batch rs (Suc idx)
             (chunks @ [\<lparr>chunk_index = index (batch ! idx), chunk_data = data r\<rparr>], failed, s)
         else
           processResults batch rs (Suc idx)
             (chunks, failed @ [Some (batch ! idx)], log (ChunkFailed (index (batch ! idx))) s))
      else if success r \<and> data r \<noteq> None then (True, chunks, failed, s)
      else (True, chunks, failed @ [None], s))"

text \<open>One pass of the \<^verbatim>\<open>for\<close> loop of \<^verbatim>\<open>loadChunksInBatches\<close> for the batch starting at \<open>i\<close>:
  the \<^verbatim>\<open>try\<close> block, its \<^verbatim>\<open>catch\<close> (every leaf of the batch is pushed to \<^verbatim>\<open>failed\<close>), and the
  100 ms pause before a further batch.\<close>

definition loadBatch :: "world \<Rightarrow> leaf list \<Rightarrow> nat \<Rightarrow> loading \<Rightarrow> loading" where
  "loadBatch w leaves i acc =
     (case acc of (chunks, failed, s) \<Rightarrow>
      let batch = take (min (i + BATCH_SIZE w) (length leaves) - i) (drop i leaves);
          batchAddresses = map address batch
      in case fetchChunksBatch w batchAddresses 2 s of (res, s1) \<Rightarrow>
         (case (case res of
                  None \<Rightarrow> (chunks, failed @ map Some batch, log BatchFailed s1)
                | Some results \<Rightarrow>
                    (case processResults batch results 0 (chunks, failed, s1) of
                       (False, acc') \<Rightarrow> acc'
                     | (True, chunks', failed', s') \<Rightarrow>
                         (chunks', failed' @ map Some batch, log BatchFailed s')))
          of (chunks1, failed1, s2) \<Rightarrow>
            (chunks1, failed1,
             if i + BATCH_SIZE w < length leaves then sleep 100 s2 else s2)))"

function loadBatches :: "world \<Rightarrow> leaf list \<Rightarrow> nat \<Rightarrow> loading \<Rightarrow> loading" where
  "loadBatches w leaves i acc =
     (if i < length leaves then loadBatches w leaves (i + BATCH_SIZE w) (loadBatch w leaves i acc)
      else acc)"
  by pat_completeness auto
termination
  by (relation "measure (\<lambda>(w, leaves, i, acc). length leaves - i)")
     (auto simp: BATCH_SIZE_def split: url_param.split option.split)

declare loadBatches.simps [simp del]

definition loadChunksInBatches :: "world \<Rightarrow> leaf list \<Rightarrow> state \<Rightarrow> loading" where
  "loadChunksInBatches w leaves s = loadBatches w leaves 0 ([], [], s)"

section \<open>Retry rounds\<close>

text \<open>The \<^verbatim>\<open>for (const leaf of toRetry)\<close> loop of one round.  An \<^verbatim>\<open>undefined\<close> entry makes
  \<^verbatim>\<open>leaf.index\<close> throw outside the \<^verbatim>\<open>try\<close>.  A fetch that resolved without data has its
  entry pushed before \<^verbatim>\<open>data.length\<close> throws inside the \<^verbatim>\<open>try\<close>, so the leaf is kept as
  failed too.\<close>

type_synonym retrying = "leaf option list \<times> chunk list \<times> state"

fun retryLeaves :: "world \<Rightarrow> leaf option list \<Rightarrow> retrying \<Rightarrow> error option \<times> retrying" where
  "retryLeaves w [] acc = (None, acc)"
| "retryLeaves w (None # ls) acc = (Some TypeError, acc)"
| "retryLeaves w (Some lf # ls) (stillFailed, chunks, s) =
     (case fetchChunkData w (address lf) 3 s of
        (Data d, s1) \<Rightarrow>
          retryLeaves w ls
            (stillFailed, chunks @ [\<lparr>chunk_index = index lf, chunk_data = Some d\<rparr>], sleep 100 s1)
      | (NoValue, s1) \<Rightarrow>
          retryLeaves w ls
            (stillFailed @ [Some lf], chunks @ [\<lparr>chunk_index = index lf, chunk_data = None\<rparr>],
             sleep 100 s1)
      | (Rejected, s1) \<Rightarrow>
          retryLeaves w ls (stillFailed @ [Some lf], chunks, sleep 100 s1))"

text \<open>The \<^verbatim>\<open>while (toRetry.length > 0 && retryRound < 5)\<close> loop.  The result carries the
  loop's variables at exit: the round counter, \<^verbatim>\<open>toRetry\<close>, and the shared \<^verbatim>\<open>chunks\<close>.\<close>

function retryRounds ::
  "world \<Rightarrow> nat \<Rightarrow> leaf option list \<Rightarrow> chunk list \<Rightarrow> state
    \<Rightarrow> error option \<times> nat \<times> leaf option list \<times> chunk list \<times> state" where
  "retryRounds w retryRound toRetry chunks s =
     (if toRetry \<noteq> [] \<and> retryRound < 5 then
        (case retryLeaves w toRetry
                ([], chunks,
                 sleep (500 * (retryRound + 1))
                   (log (RetryRound (retryRound + 1) (length toRetry)) s)) of
           (None, stillFailed, chunks', s') \<Rightarrow> retryRounds w (retryRound + 1) stillFailed chunks' s'
         | (Some e, stillFailed, chunks', s') \<Rightarrow> (Some e, retryRound + 1, toRetry, chunks', s'))
      else (None, retryRound, toRetry, chunks, s))"
  by pat_completeness auto
termination
  by (relation "measure (\<lambda>(w, retryRound, toRetry, chunks, s). 5 - retryRound)") auto

declare retryRounds.simps [simp del]

text \<open>\<^verbatim>\<open>retryFailedChunks(failed, chunks)\<close> resolves with no value: what the caller gets back
  is the mutated \<^verbatim>\<open>chunks\<close> array; the leaves left in \<^verbatim>\<open>toRetry\<close> are counted in a log line.\<close>

definition retryFailedChunks ::
  "world \<Rightarrow> leaf option list \<Rightarrow> chunk list \<Rightarrow> state \<Rightarrow> error option \<times> chunk list \<times> state" where
  "retryFailedChunks w failed chunks s =
     (if failed = [] then (None, chunks, s)
      else
        (case retryRounds w 0 failed chunks s of
           (Some e, retryRound, toRetry, chunks', s') \<Rightarrow> (Some e, chunks', s')
         | (None, retryRound, toRetry, chunks', s') \<Rightarrow>
             (None, chunks',
              if toRetry \<noteq> [] then log (PermanentlyFailed (length toRetry)) s' else s')))"

section \<open>Assembly\<close>

text \<open>\<^verbatim>\<open>finalData.set(chunk.data, offset)\<close> on a typed array (a \<^verbatim>\<open>RangeError\<close>, \<open>None\<close>, when
  the source does not fit), the sum of the lengths (\<^verbatim>\<open>c.data.length\<close> throws on an entry
  without data), and the copy loop.\<close>

definition typedSet :: "bytes \<Rightarrow> bytes \<Rightarrow> nat \<Rightarrow> bytes option" where
  "typedSet target source offset =
     (if offset + length source \<le> length target
      then Some (take offset target @ source @ drop (offset + length source) target)
      else None)"

fun totalLength :: "chunk list \<Rightarrow> nat option" where
  "totalLength [] = Some 0"
| "totalLength (c # cs) =
     (case chunk_data c of
        None \<Rightarrow> None
      | Some d \<Rightarrow> (case totalLength cs of None \<Rightarrow> None | Some n \<Rightarrow> Some (length d + n)))"

fun copyChunks :: "chunk list \<Rightarrow> bytes \<Rightarrow> nat \<Rightarrow> bytes option" where
  "copyChunks [] finalData offset = Some finalData"
| "copyChunks (c # cs) finalData offset =
     (case chunk_data c of
        None \<Rightarrow> None
      | Some d \<Rightarrow>
          (case typedSet finalData d offset of
             None \<Rightarrow> None
           | Some finalData' \<Rightarrow> copyChunks cs finalData' (offset + length d)))"

definition assemble :: "chunk list \<Rightarrow> bytes option" where
  "assemble chunks =
     (case totalLength chunks of
        None \<Rightarrow> None
      | Some totalBytes \<Rightarrow> copyChunks chunks (replicate totalBytes 0) 0)"

section \<open>The main loader\<close>

text \<open>\<^verbatim>\<open>fetchTreeSequential(rootChunk, depth, totalSize)\<close>; \<^verbatim>\<open>totalSize\<close> is not used by its
  body.  \<^verbatim>\<open>chunks.sort((a, b) => a.index - b.index)\<close> is a stable sort on the index.\<close>

definition fetchTreeSequential ::
  "world \<Rightarrow> address \<Rightarrow> nat \<Rightarrow> state \<Rightarrow> (error + bytes) \<times> state" where
  "fetchTreeSequential w rootChunk depth s =
     (case collectLeafAddresses w rootChunk depth s of
        (Inl e, s1) \<Rightarrow> (Inl e, s1)
      | (Inr leaves, s1) \<Rightarrow>
          (case loadChunksInBatches w leaves (log (FoundLeaves (length leaves)) s1) of
             (chunks, failed, s2) \<Rightarrow>
               (case (if failed \<noteq> []
                      then retryFailedChunks w failed chunks
                             (log (LoadedFailed (length chunks) (length failed)) s2)
                      else (None, chunks, log (LoadedFailed (length chunks) (length failed)) s2)) of
                  (Some e, chunks', s3) \<Rightarrow> (Inl e, s3)
                | (None, chunks', s3) \<Rightarrow>
                    (case assemble (sort_key chunk_index chunks') of
                       None \<Rightarrow> (Inl TypeError, s3)
                     | Some finalData \<Rightarrow>
                         (Inr finalData,
                          log (Complete (length chunks') (length finalData)) s3)))))"

section \<open>The extension's site loader\<close>

text \<open>
  \<^verbatim>\<open>readChunk(address, rpcUrl, retries = 3)\<close> of \<^verbatim>\<open>site-loader.js\<close> has the same loop
  with the pause \<^verbatim>\<open>300 * Math.pow(2, i)\<close>; an empty \<^verbatim>\<open>eth_call\<close> result is thrown as an
  error inside the \<^verbatim>\<open>try\<close>, so it counts as a failed attempt (\<open>readPage\<close> answers \<open>None\<close>).
  \<^verbatim>\<open>collectLeaves\<close> pushes the leaf addresses to the array it is handed; it has no
  \<^verbatim>\<open>try\<close>, and the progress callback is not modelled.
\<close>

definition readChunk :: "world \<Rightarrow> address \<Rightarrow> nat \<Rightarrow> state \<Rightarrow> fetched \<times> state" where
  "readChunk w a retries s = fetchAttempts (\<lambda>i. 300 * 2 ^ i) w a retries 0 s"

fun collectLeaves ::
    "world \<Rightarrow> address \<Rightarrow> nat \<Rightarrow> address list \<times> state \<Rightarrow> error option \<times> address list \<times> state"
  and collectLeavesOf ::
    "world \<Rightarrow> address list \<Rightarrow> nat \<Rightarrow> address list \<times> state \<Rightarrow> error option \<times> address list \<times> state"
  where
  "collectLeaves w a 0 (leaves, s) = (None, leaves @ [a], s)"
| "collectLeaves w a (Suc d) (leaves, s) =
     (case readChunk w a 3 s of
        (Data nodeData, s1) \<Rightarrow> collectLeavesOf w (childAddrs nodeData) d (leaves, s1)
      | (Rejected, s1) \<Rightarrow> (Some RpcError, leaves, s1)
      | (NoValue, s1) \<Rightarrow> (Some TypeError, leaves, s1))"
| "collectLeavesOf w [] d acc = (None, acc)"
| "collectLeavesOf w (child # children) d acc =
     (case collectLeaves w child d acc of
        (None, acc') \<Rightarrow> collectLeavesOf w children d acc'
      | (Some e, acc') \<Rightarrow> (Some e, acc'))"

section \<open>Splitting content into chunks (the deploy script)\<close>

text \<open>
  \<^verbatim>\<open>chunkBuffer(buf, size)\<close>:
  \<^verbatim>\<open>for (let i = 0; i < buf.length; i += size) chunks.push(buf.subarray(i, Math.min(i + size, buf.length)))\<close>.
  With \<^verbatim>\<open>size\<close> 0 and a non-empty buffer the loop never ends: the function does not
  return (\<open>None\<close>), and the loop of the model stops where the source would spin.
\<close>

function chunksFrom :: "bytes \<Rightarrow> nat \<Rightarrow> nat \<Rightarrow> bytes list" where
  "chunksFrom buf n i =
     (if i < length buf \<and> 0 < n
      then take (min (i + n) (length buf) - i) (drop i buf) # chunksFrom buf n (i + n)
      else [])"
  by pat_completeness auto
termination
  by (relation "measure (\<lambda>(buf, n, i). length buf - i)") auto

declare chunksFrom.simps [simp del]

definition chunkBuffer :: "bytes \<Rightarrow> nat \<Rightarrow> bytes list option" where
  "chunkBuffer buf n = (if n = 0 \<and> buf \<noteq> [] then None else Some (chunksFrom buf n 0))"

section \<open>Specification vocabulary\<close>

text \<open>
  The order the specification names for discovery, written as the pure function its
  design notes ask for: the leaves below a node, depth first and left to right, are the
  node itself at depth 0 and otherwise the leaves below its children, child by child in
  payload order.  \<open>\<sigma>\<close> is the fixed content of every page.
\<close>

fun depthFirstLeaves :: "(address \<Rightarrow> bytes) \<Rightarrow> nat \<Rightarrow> address \<Rightarrow> address list" where
  "depthFirstLeaves \<sigma> 0 a = [a]"
| "depthFirstLeaves \<sigma> (Suc d) a = concat (map (depthFirstLeaves \<sigma> d) (childAddrs (\<sigma> a)))"

text \<open>Leaf descriptors numbered from \<open>n\<close> on.\<close>

definition descriptors :: "nat \<Rightarrow> address list \<Rightarrow> leaf list" where
  "descriptors n as = map (\<lambda>(i, a). \<lparr>index = i, address = a\<rparr>) (enumerate n as)"

text \<open>A network over a fixed tree: whenever a read answers, it answers the page's content;
  when and how often it fails is left open.\<close>

definition consistent :: "world \<Rightarrow> (address \<Rightarrow> bytes) \<Rightarrow> bool" where
  "consistent w \<sigma> = (\<forall>a n. readPage w a n = None \<or> readPage w a n = Some (\<sigma> a))"

text \<open>The state a read of page \<open>a\<close> leaves behind.\<close>

definition afterRead :: "address \<Rightarrow> state \<Rightarrow> state" where
  "afterRead a s = s\<lparr>reads := (reads s)(a := Suc (reads s a)), trace := trace s @ [ReadCall a]\<rparr>"

text \<open>The events a run added to the trace.\<close>

definition newEvents :: "state \<Rightarrow> state \<Rightarrow> event list" where
  "newEvents s s' = drop (length (trace s)) (trace s')"

text \<open>The aggregated reader keeps its interface contract when every answer carries one
  slot per requested address.\<close>

definition aligned :: "world \<Rightarrow> bool" where
  "aligned w = (\<forall>n addrs slots. aggregate3 w n addrs = Some slots \<longrightarrow> length slots = length addrs)"

text \<open>The test \<^verbatim>\<open>result.success && result.data\<close> (a \<^verbatim>\<open>Uint8Array\<close> is truthy, also when
  empty), and what one pass over a batch paired with its results appends to \<^verbatim>\<open>chunks\<close>
  and to \<^verbatim>\<open>failed\<close>.\<close>

definition okResult :: "fetch_result \<Rightarrow> bool" where
  "okResult r = (success r \<and> data r \<noteq> None)"

definition loadedChunks :: "(leaf \<times> fetch_result) list \<Rightarrow> chunk list" where
  "loadedChunks prs =
     map (\<lambda>(lf, r). \<lparr>chunk_index = index lf, chunk_data = data r\<rparr>) (filter (\<lambda>(lf, r). okResult r) prs)"

definition failedLeaves :: "(leaf \<times> fetch_result) list \<Rightarrow> leaf list" where
  "failedLeaves prs = map fst (filter (\<lambda>(lf, r). \<not> okResult r) prs)"

text \<open>The same for one retry round over the leaves paired with what their fetch gave.\<close>

definition retriedChunks :: "(leaf \<times> fetched) list \<Rightarrow> chunk list" where
  "retriedChunks pfs =
     concat (map (\<lambda>(lf, f). case f of
                     Data d \<Rightarrow> [\<lparr>chunk_index = index lf, chunk_data = Some d\<rparr>]
                   | NoValue \<Rightarrow> [\<lparr>chunk_index = index lf, chunk_data = None\<rparr>]
                   | Rejected \<Rightarrow> []) pfs)"

definition isData :: "fetched \<Rightarrow> bool" where
  "isData f = (case f of Data d \<Rightarrow> True | _ \<Rightarrow> False)"

definition stillFailing :: "(leaf \<times> fetched) list \<Rightarrow> leaf list" where
  "stillFailing pfs = map fst (filter (\<lambda>(lf, f). \<not> isData f) pfs)"

text \<open>
  A network over the fixed tree \<open>\<sigma>\<close> in which the pages of \<open>F\<close> can never be fetched and
  every other page always can: single reads answer accordingly, and an aggregate call
  either fails as a whole or answers one slot per address, unusable exactly for the
  addresses in \<open>F\<close>.
\<close>

definition outcome :: "(address \<Rightarrow> bytes) \<Rightarrow> address set \<Rightarrow> address \<Rightarrow> fetch_result" where
  "outcome \<sigma> F a =
     (if a \<in> F then \<lparr>success = False, data = None\<rparr> else \<lparr>success = True, data = Some (\<sigma> a)\<rparr>)"

definition served :: "world \<Rightarrow> (address \<Rightarrow> bytes) \<Rightarrow> address set \<Rightarrow> bool" where
  "served w \<sigma> F =
     ((\<forall>a n. readPage w a n = (if a \<in> F then None else Some (\<sigma> a)))
      \<and> (\<forall>n addrs slots. aggregate3 w n addrs = Some slots \<longrightarrow>
            map (parseResult w) slots = map (outcome \<sigma> F) addrs))"

text \<open>What the loading loop relies on: every call \<^verbatim>\<open>fetchChunksBatch(batchAddresses, 2)\<close>
  resolves with one result per address, each related to its address by \<open>Q\<close>.\<close>

definition batchGives :: "world \<Rightarrow> (address \<Rightarrow> fetch_result \<Rightarrow> bool) \<Rightarrow> bool" where
  "batchGives w Q =
     (\<forall>addrs s. \<exists>rs. fst (fetchChunksBatch w addrs 2 s) = Some rs \<and> list_all2 Q addrs rs)"

text \<open>\<open>f\<close> is what some call \<^verbatim>\<open>fetchChunkData(a, 3)\<close> gives on this network.\<close>

definition fetchGives :: "world \<Rightarrow> address \<Rightarrow> fetched \<Rightarrow> bool" where
  "fetchGives w a f = (\<exists>s s'. fetchChunkData w a 3 s = (f, s'))"

text \<open>The bytes an entry of \<^verbatim>\<open>chunks\<close> holds.\<close>

definition chunkBytes :: "chunk \<Rightarrow> bytes" where
  "chunkBytes c = (case chunk_data c of Some d \<Rightarrow> d | None \<Rightarrow> [])"

text \<open>The events of \<open>k\<close> failed aggregate attempts, numbered from \<open>i\<close>, each followed by its
  pause \<^verbatim>\<open>Math.min(300 * Math.pow(2, i), 3000)\<close>; and the test for an aggregate call.\<close>

definition failedAttempts :: "address list \<Rightarrow> nat \<Rightarrow> nat \<Rightarrow> event list" where
  "failedAttempts addrs i k =
     concat (map (\<lambda>j. [AggregateCall addrs, Sleep (min (300 * 2 ^ j) 3000)]) [i..<i + k])"

definition isAggregateCall :: "event \<Rightarrow> bool" where
  "isAggregateCall e = (case e of AggregateCall addrs \<Rightarrow> True | _ \<Rightarrow> False)"

text \<open>Reading a trace: the pauses of at least 500 ms (the waits before retry rounds; the
  pauses inside a round are 100, 200 and 400 ms), and the test for a single read.\<close>

definition longSleeps :: "event list \<Rightarrow> nat list" where
  "longSleeps evs =
     concat (map (\<lambda>e. case e of Sleep ms \<Rightarrow> if 500 \<le> ms then [ms] else [] | _ \<Rightarrow> []) evs)"

definition isReadCall :: "event \<Rightarrow> bool" where
  "isReadCall e = (case e of ReadCall a \<Rightarrow> True | _ \<Rightarrow> False)"


text \<open>
  A network that keeps the readers' contracts over the fixed tree \<open>\<sigma>\<close>: a read that
  answers gives the page's content, and an aggregate call that answers carries one slot
  per requested address, whose data, when the slot is usable, is the content of that
  address.  Which calls fail, and when, is left open.  A page is \<open>dead\<close> when no read of
  it ever answers and no aggregate slot for it is ever usable.  \<open>delivered\<close> is what
  such a network guarantees of a result for an address, and \<open>entry\<close> is the element of
  \<^verbatim>\<open>chunks\<close> a fetched leaf becomes.
\<close>

definition faithful :: "world \<Rightarrow> (address \<Rightarrow> bytes) \<Rightarrow> bool" where
  "faithful w \<sigma> =
     (consistent w \<sigma>
      \<and> (\<forall>n addrs slots. aggregate3 w n addrs = Some slots \<longrightarrow>
            length slots = length addrs
            \<and> (\<forall>i<length addrs. okResult (parseResult w (slots ! i)) \<longrightarrow>
                  data (parseResult w (slots ! i)) = Some (\<sigma> (addrs ! i)))))"

definition dead :: "world \<Rightarrow> address \<Rightarrow> bool" where
  "dead w a =
     ((\<forall>n. readPage w a n = None)
      \<and> (\<forall>n addrs slots. aggregate3 w n addrs = Some slots \<longrightarrow>
            (\<forall>i<length addrs. addrs ! i = a \<longrightarrow> \<not> okResult (parseResult w (slots ! i)))))"

definition delivered :: "world \<Rightarrow> (address \<Rightarrow> bytes) \<Rightarrow> address \<Rightarrow> fetch_result \<Rightarrow> bool" where
  "delivered w \<sigma> a r = (okResult r \<longrightarrow> data r = Some (\<sigma> a) \<and> \<not> dead w a)"

definition entry :: "(address \<Rightarrow> bytes) \<Rightarrow> leaf \<Rightarrow> chunk" where
  "entry \<sigma> lf = \<lparr>chunk_index = index lf, chunk_data = Some (\<sigma> (address lf))\<rparr>"


type_synonym round = "(leaf \<times> nat \<times> bool) list"



definition failedOf :: "round \<Rightarrow> leaf list" where
  "failedOf rd = map fst (filter (\<lambda>(lf, k, ok). \<not> ok) rd)"

definition succeededOf :: "round \<Rightarrow> leaf list" where
  "succeededOf rd = map fst (filter (\<lambda>(lf, k, ok). ok) rd)"



definition readsOk :: "round \<Rightarrow> bool" where
  "readsOk rd = list_all (\<lambda>(lf, k, ok). 1 \<le> k \<and> k \<le> 3 \<and> (ok \<or> k = 3)) rd"

section \<open>The video loader\<close>

text \<open>
  \<^verbatim>\<open>video-loader.js\<close> has its own copies of the fetch functions, with the pause
  \<^verbatim>\<open>Math.min(300 * Math.pow(2, i), 3000)\<close> in both retry loops; its leaves are plain
  addresses, numbered by their position in \<^verbatim>\<open>leafAddresses\<close>.
\<close>

definition videoDelay :: "nat \<Rightarrow> nat" where
  "videoDelay i = min (300 * 2 ^ i) 3000"

definition fetchChunkData_video :: "world \<Rightarrow> address \<Rightarrow> nat \<Rightarrow> state \<Rightarrow> fetched \<times> state" where
  "fetchChunkData_video w a retries s = fetchAttempts videoDelay w a retries 0 s"

definition fetchChunksBatch_video ::
  "world \<Rightarrow> address list \<Rightarrow> nat \<Rightarrow> state \<Rightarrow> fetch_result list option \<times> state" where
  "fetchChunksBatch_video w addresses retries s = batchOrIndividually videoDelay w addresses retries s"

type_synonym vscan = "address list \<times> state"

fun traverseNode_video :: "world \<Rightarrow> address \<Rightarrow> nat \<Rightarrow> vscan \<Rightarrow> error option \<times> vscan"
  and traverseChildren_video :: "world \<Rightarrow> address list \<Rightarrow> nat \<Rightarrow> vscan \<Rightarrow> error option \<times> vscan"
  where
  "traverseNode_video w a 0 (leaves, s) = (None, leaves @ [a], s)"
| "traverseNode_video w a (Suc d) (leaves, s) =
     (case fetchChunkData_video w a 3 s of
        (Data bs, s1) \<Rightarrow>
          (case traverseChildren_video w (childAddrs bs) d (leaves, s1) of
             (None, sc) \<Rightarrow> (None, sc)
           | (Some e, leaves', s2) \<Rightarrow> (Some e, leaves', log (TraverseFailed a) s2))
      | (Rejected, s1) \<Rightarrow> (Some RpcError, leaves, log (TraverseFailed a) s1)
      | (NoValue, s1) \<Rightarrow> (Some TypeError, leaves, log (TraverseFailed a) s1))"
| "traverseChildren_video w [] d sc = (None, sc)"
| "traverseChildren_video w (c # cs) d sc =
     (case traverseNode_video w c d sc of
        (None, sc') \<Rightarrow> traverseChildren_video w cs d sc'
      | (Some e, sc') \<Rightarrow> (Some e, sc'))"

definition collectLeafAddresses_video ::
  "world \<Rightarrow> address \<Rightarrow> nat \<Rightarrow> state \<Rightarrow> (error + address list) \<times> state" where
  "collectLeafAddresses_video w rootChunk depth s =
     (case traverseNode_video w rootChunk depth ([], s) of
        (None, leaves, s') \<Rightarrow> (Inr leaves, s')
      | (Some e, leaves, s') \<Rightarrow> (Inl e, s'))"

subsection \<open>Segments\<close>

text \<open>
  An entry of the segment map, \<^verbatim>\<open>{ type, byteStart, byteEnd }\<close>, and what
  \<^verbatim>\<open>adjustSegmentOffsets\<close> adds to it.  The offsets of a segment map are taken to be
  non-negative integers.  What \<^verbatim>\<open>JSON.parse\<close> can give for the header bytes: \<open>Null\<close> when
  it throws or gives \<^verbatim>\<open>null\<close> (then \<^verbatim>\<open>parsed.length\<close> throws; both end in the \<^verbatim>\<open>catch\<close>),
  \<open>Falsy\<close> for \<^verbatim>\<open>0\<close>, \<^verbatim>\<open>false\<close> and the empty string, \<open>NotArray\<close> for any other value that is
  not an array, and the array of segments.
\<close>

record segment =
  seg_type :: string
  byteStart :: nat
  byteEnd :: nat

record adjusted = segment +
  adjustedByteStart :: nat
  adjustedByteEnd :: nat
  adjustedChunkStart :: nat
  adjustedChunkEnd :: nat

datatype parsed = Null | Falsy | NotArray | SegmentMap "segment list"

text \<open>
  The player side of the environment: the JSON parser, whether the \<open>k\<close>-th call of
  \<^verbatim>\<open>appendBuffer\<close> is accepted (\<^verbatim>\<open>appendSegment\<close> resolves) or refused (it rejects),
  whether the \<^verbatim>\<open>MediaSource\<close> opens and takes the source buffer (\<^verbatim>\<open>setupMediaSource\<close>
  resolves) or not (it rejects), whether the browser supports one of the MIME types, and
  the URL parameter \<^verbatim>\<open>raw\<close>.  The player is taken to answer every call, and the media
  source to be still open when the streaming ends.
\<close>

record media =
  jsonParse :: "bytes \<Rightarrow> parsed"
  appendAccepted :: "nat \<Rightarrow> bool"
  sourceOpens :: bool
  mediaSourceSupported :: bool
  forceRaw :: bool

text \<open>What the loader does to the page: entries put into \<^verbatim>\<open>chunkDataMap\<close>, buffers handed
  to \<^verbatim>\<open>sourceBuffer.appendBuffer\<close> (with the segment number of the log line before the
  call), a refused append, \<^verbatim>\<open>videoPlayer.play()\<close>, \<^verbatim>\<open>mediaSource.endOfStream()\<close>, and
  the blob given to \<^verbatim>\<open>videoPlayer.src\<close> by the direct playback.\<close>

datatype vevent =
    ChunkSet nat
  | AppendBuffer nat bytes
  | AppendError nat
  | Play
  | EndOfStream
  | BlobSrc bytes

text \<open>The module's variables that steer the loader (the counters for the statistics are
  left out), and the calls made so far.\<close>

record video =
  chunkDataMap :: "nat \<Rightarrow> bytes option"
  segmentMap :: parsed
  headerLength :: nat
  isPlaying :: bool
  player :: "vevent list"

datatype failure = Thrown error | MediaSourceError

text \<open>\<^verbatim>\<open>Math.ceil(x / y)\<close> for naturals, \<^verbatim>\<open>y\<close> positive.\<close>

definition ceilDiv :: "nat \<Rightarrow> nat \<Rightarrow> nat" where
  "ceilDiv x y = (x + y - 1) div y"

definition adjustSegmentOffsets :: "world \<Rightarrow> video \<Rightarrow> segment list \<Rightarrow> adjusted list" where
  "adjustSegmentOffsets w v segments =
     (let headerSize = 4 + headerLength v in
      map (\<lambda>seg.
             \<lparr>seg_type = seg_type seg, byteStart = byteStart seg, byteEnd = byteEnd seg,
              adjustedByteStart = byteStart seg + headerSize,
              adjustedByteEnd = byteEnd seg + headerSize,
              adjustedChunkStart = (byteStart seg + headerSize) div CHUNK_SIZE w,
              adjustedChunkEnd = ceilDiv (byteEnd seg + headerSize) (CHUNK_SIZE w)\<rparr>)
        segments)"

definition isSegmentComplete :: "video \<Rightarrow> adjusted \<Rightarrow> bool" where
  "isSegmentComplete v seg =
     list_all (\<lambda>i. chunkDataMap v i \<noteq> None) [adjustedChunkStart seg..<adjustedChunkEnd seg]"

text \<open>\<^verbatim>\<open>TypedArray.prototype.slice(begin, end)\<close>: a negative position counts from the end,
  and both are clamped to the array.\<close>

definition sliceArray :: "bytes \<Rightarrow> int \<Rightarrow> int \<Rightarrow> bytes" where
  "sliceArray xs b e =
     (let len = int (length xs);
          k = (if b < 0 then max (len + b) 0 else min b len);
          final = (if e < 0 then max (len + e) 0 else min e len)
      in take (nat (final - k)) (drop (nat k) xs))"

text \<open>The chunks \<^verbatim>\<open>chunkDataMap.get(i)\<close> of a range; \<open>None\<close> when one of them is
  \<^verbatim>\<open>undefined\<close>, on which \<^verbatim>\<open>c.length\<close> throws.\<close>

fun getChunks :: "video \<Rightarrow> nat list \<Rightarrow> bytes list option" where
  "getChunks v [] = Some []"
| "getChunks v (i # js) =
     (case chunkDataMap v i of
        None \<Rightarrow> None
      | Some c \<Rightarrow> (case getChunks v js of None \<Rightarrow> None | Some cs \<Rightarrow> Some (c # cs)))"

definition extractSegmentData :: "world \<Rightarrow> video \<Rightarrow> adjusted \<Rightarrow> bytes option" where
  "extractSegmentData w v seg =
     (let headerSize = 4 + headerLength v in
      case getChunks v [adjustedChunkStart seg..<adjustedChunkEnd seg] of
        None \<Rightarrow> None
      | Some chunks \<Rightarrow>
          let firstChunkOffset = adjustedChunkStart seg * CHUNK_SIZE w;
              startInData = int (byteStart seg + headerSize) - int firstChunkOffset;
              segmentLength = int (byteEnd seg) - int (byteStart seg);
              assembled = concat chunks
          in Some (sliceArray assembled startInData (startInData + segmentLength)))"

subsection \<open>The header\<close>

text \<open>\<^verbatim>\<open>DataView.getUint32(0)\<close> reads four bytes, big-endian; the callers check the
  length.\<close>

definition getUint32 :: "bytes \<Rightarrow> nat" where
  "getUint32 bs =
     ((unat (bs ! 0) * 256 + unat (bs ! 1)) * 256 + unat (bs ! 2)) * 256 + unat (bs ! 3)"

text \<open>The copy loop of \<^verbatim>\<open>parseHeaderFromChunks\<close>; \<open>acc\<close> is the part of \<^verbatim>\<open>headerBytes\<close>
  written so far, its length is \<^verbatim>\<open>headerBytesOffset\<close>.  The loop runs after every chunk
  below \<^verbatim>\<open>chunksNeeded\<close> was found in the map, so \<^verbatim>\<open>chunkDataMap.get(i)\<close> is defined.\<close>

function copyHeader :: "video \<Rightarrow> nat \<Rightarrow> nat \<Rightarrow> bytes \<Rightarrow> bytes" where
  "copyHeader v chunksNeeded i acc =
     (if i < chunksNeeded \<and> length acc < headerLength v then
        (case chunkDataMap v i of
           None \<Rightarrow> acc
         | Some c \<Rightarrow>
             let startInChunk = (if i = 0 then 4 else 0);
                 available = int (length c) - startInChunk;
                 needed = int (headerLength v) - int (length acc);
                 toCopy = min available needed
             in copyHeader v chunksNeeded (Suc i)
                  (acc @ sliceArray c startInChunk (startInChunk + toCopy)))
      else acc)"
  by pat_completeness auto
termination
  by (relation "measure (\<lambda>(v, chunksNeeded, i, acc). chunksNeeded - i)") auto

declare copyHeader.simps [simp del]

text \<open>
  \<^verbatim>\<open>parseHeaderFromChunks()\<close>: it assigns \<^verbatim>\<open>headerLength\<close> as soon as chunk 0 has four
  bytes, and returns \<^verbatim>\<open>null\<close> (\<open>Null\<close>) when chunk 0 or a chunk of the header is missing or
  when the parser fails; it does not throw.  \<^verbatim>\<open>headerBytes\<close> is a zero-filled array of
  \<^verbatim>\<open>headerLength\<close> bytes.
\<close>

definition parseHeaderFromChunks :: "media \<Rightarrow> world \<Rightarrow> video \<Rightarrow> parsed \<times> video" where
  "parseHeaderFromChunks m w v =
     (case chunkDataMap v 0 of
        None \<Rightarrow> (Null, v)
      | Some chunk0 \<Rightarrow>
          if length chunk0 < 4 then (Null, v)
          else
            let v1 = v\<lparr>headerLength := getUint32 chunk0\<rparr>;
                headerEnd = 4 + headerLength v1;
                chunksNeeded = ceilDiv headerEnd (CHUNK_SIZE w)
            in if \<not> list_all (\<lambda>i. chunkDataMap v1 i \<noteq> None) [0..<chunksNeeded] then (Null, v1)
               else
                 let copied = copyHeader v1 chunksNeeded 0 [];
                     headerBytes = copied @ replicate (headerLength v1 - length copied) 0
                 in (jsonParse m headerBytes, v1))"

subsection \<open>Streaming\<close>

definition startPlayback :: "video \<Rightarrow> video" where
  "startPlayback v = (if isPlaying v then v else v\<lparr>isPlaying := True, player := player v @ [Play]\<rparr>)"

text \<open>The number of \<^verbatim>\<open>appendBuffer\<close> calls made so far.\<close>

definition isAppend :: "vevent \<Rightarrow> bool" where
  "isAppend e = (case e of AppendBuffer k d \<Rightarrow> True | _ \<Rightarrow> False)"

definition appendCount :: "video \<Rightarrow> nat" where
  "appendCount v = length (filter isAppend (player v))"

text \<open>
  The loop \<^verbatim>\<open>while (nextSegmentToAppend < adjustedSegments.length)\<close>, which occurs twice:
  inside the batch loop, where playback starts after the second accepted append
  (\<open>inLoop\<close>), and after it.  A refused append is logged and the segment is passed over.
  The result is the error thrown (none can be, as the proofs show), the new value of
  \<^verbatim>\<open>nextSegmentToAppend\<close> and the state of the page.
\<close>

function appendSegments ::
  "media \<Rightarrow> world \<Rightarrow> bool \<Rightarrow> adjusted list \<Rightarrow> nat \<Rightarrow> video \<Rightarrow> error option \<times> nat \<times> video" where
  "appendSegments m w inLoop adjustedSegments nextSegmentToAppend v =
     (if nextSegmentToAppend < length adjustedSegments then
        (let seg = adjustedSegments ! nextSegmentToAppend in
         if \<not> isSegmentComplete v seg then (None, nextSegmentToAppend, v)
         else
           (case extractSegmentData w v seg of
              None \<Rightarrow> (Some TypeError, nextSegmentToAppend, v)
            | Some segData \<Rightarrow>
                let accepted = appendAccepted m (appendCount v);
                    v1 = v\<lparr>player := player v @ [AppendBuffer nextSegmentToAppend segData]\<rparr>;
                    v2 = (if accepted then
                            (if inLoop \<and> \<not> isPlaying v1 \<and> 1 \<le> nextSegmentToAppend
                             then startPlayback v1 else v1)
                          else v1\<lparr>player := player v1 @ [AppendError nextSegmentToAppend]\<rparr>)
                in appendSegments m w inLoop adjustedSegments (Suc nextSegmentToAppend) v2))
      else (None, nextSegmentToAppend, v))"
  by pat_completeness auto
termination
  by (relation "measure (\<lambda>(m, w, inLoop, adjustedSegments, nextSegmentToAppend, v).
                  length adjustedSegments - nextSegmentToAppend)") auto

declare appendSegments.simps [simp del]

text \<open>The callback of \<^verbatim>\<open>results.forEach\<close> in the batch loop: \<^verbatim>\<open>chunkDataMap.set(i + idx, data)\<close>
  for every result with data.\<close>

fun storeResults :: "nat \<Rightarrow> fetch_result list \<Rightarrow> nat \<Rightarrow> video \<Rightarrow> video" where
  "storeResults i [] idx v = v"
| "storeResults i (r # rs) idx v =
     storeResults i rs (Suc idx)
       (case data r of
          Some d \<Rightarrow>
            if success r
            then v\<lparr>chunkDataMap := (chunkDataMap v)(i + idx \<mapsto> d),
                   player := player v @ [ChunkSet (i + idx)]\<rparr>
            else v
        | None \<Rightarrow> v)"

text \<open>The local variables of \<^verbatim>\<open>streamVideoWithSegments\<close>.\<close>

record streaming =
  segmentsParsed :: bool
  adjustedSegments :: "adjusted list"
  nextSegmentToAppend :: nat

text \<open>\<^verbatim>\<open>if (!segmentsParsed) { ... }\<close>: a parsed value that is not an array makes
  \<^verbatim>\<open>segments.map\<close> throw, after \<^verbatim>\<open>segmentMap\<close> was assigned.\<close>

definition parseOnce :: "media \<Rightarrow> world \<Rightarrow> streaming \<Rightarrow> video \<Rightarrow> error option \<times> streaming \<times> video" where
  "parseOnce m w st v =
     (if segmentsParsed st then (None, st, v)
      else
        (case parseHeaderFromChunks m w v of (p, v1) \<Rightarrow>
           let v2 = v1\<lparr>segmentMap := p\<rparr> in
           (case p of
              Null \<Rightarrow> (None, st, v2)
            | Falsy \<Rightarrow> (None, st, v2)
            | NotArray \<Rightarrow> (Some TypeError, st, v2)
            | SegmentMap segs \<Rightarrow>
                (None, st\<lparr>adjustedSegments := adjustSegmentOffsets w v2 segs, segmentsParsed := True\<rparr>,
                 v2))))"

text \<open>One pass of the batch loop: the \<^verbatim>\<open>try\<close> block and its \<^verbatim>\<open>catch\<close>, which logs and goes
  on with the next batch.  Of the console lines of the video loader only this one and
  the one of a failed traversal are kept.\<close>

type_synonym stream = "streaming \<times> state \<times> video"

definition streamBatch :: "media \<Rightarrow> world \<Rightarrow> address list \<Rightarrow> nat \<Rightarrow> stream \<Rightarrow> stream" where
  "streamBatch m w leafAddresses i str =
     (case str of (st, s, v) \<Rightarrow>
      let batchEnd = min (i + BATCH_SIZE w) (length leafAddresses);
          batch = take (batchEnd - i) (drop i leafAddresses)
      in case fetchChunksBatch_video w batch 2 s of
           (None, s1) \<Rightarrow> (st, log BatchFailed s1, v)
         | (Some results, s1) \<Rightarrow>
             (case parseOnce m w st (storeResults i results 0 v) of
                (Some e, st1, v1) \<Rightarrow> (st1, log BatchFailed s1, v1)
              | (None, st1, v1) \<Rightarrow>
                  if segmentsParsed st1 then
                    (case appendSegments m w True (adjustedSegments st1) (nextSegmentToAppend st1) v1 of
                       (Some e, n, v2) \<Rightarrow> (st1\<lparr>nextSegmentToAppend := n\<rparr>, log BatchFailed s1, v2)
                     | (None, n, v2) \<Rightarrow>
                         (st1\<lparr>nextSegmentToAppend := n\<rparr>,
                          if batchEnd < length leafAddresses then sleep 100 s1 else s1, v2))
                  else (st1, if batchEnd < length leafAddresses then sleep 100 s1 else s1, v1)))"

function streamBatches :: "media \<Rightarrow> world \<Rightarrow> address list \<Rightarrow> nat \<Rightarrow> stream \<Rightarrow> stream" where
  "streamBatches m w leafAddresses i str =
     (if i < length leafAddresses
      then streamBatches m w leafAddresses (i + BATCH_SIZE w) (streamBatch m w leafAddresses i str)
      else str)"
  by pat_completeness auto
termination
  by (relation "measure (\<lambda>(m, w, leafAddresses, i, str). length leafAddresses - i)")
     (auto simp: BATCH_SIZE_def split: url_param.split option.split)

declare streamBatches.simps [simp del]

text \<open>
  \<^verbatim>\<open>streamVideoWithSegments(rootChunk, depth, totalSize, mimeType)\<close>.  It throws when the
  discovery throws, when the media source does not open, or when the final append loop
  throws; the result carries the local variables at the end.
\<close>

definition streamVideoWithSegments ::
  "media \<Rightarrow> world \<Rightarrow> address \<Rightarrow> nat \<Rightarrow> state \<times> video \<Rightarrow> failure option \<times> streaming \<times> state \<times> video" where
  "streamVideoWithSegments m w rootChunk depth sv =
     (case sv of (s, v) \<Rightarrow>
      let st0 = \<lparr>segmentsParsed = False, adjustedSegments = [], nextSegmentToAppend = 0\<rparr> in
      case collectLeafAddresses_video w rootChunk depth s of
        (Inl e, s1) \<Rightarrow> (Some (Thrown e), st0, s1, v)
      | (Inr leafAddresses, s1) \<Rightarrow>
          if \<not> sourceOpens m then (Some MediaSourceError, st0, s1, v)
          else
            (case streamBatches m w leafAddresses 0 (st0, s1, v) of (st, s2, v1) \<Rightarrow>
               (case appendSegments m w False (adjustedSegments st) (nextSegmentToAppend st) v1 of
                  (Some e, n, v2) \<Rightarrow> (Some (Thrown e), st\<lparr>nextSegmentToAppend := n\<rparr>, s2, v2)
                | (None, n, v2) \<Rightarrow>
                    (None, st\<lparr>nextSegmentToAppend := n\<rparr>, s2,
                     startPlayback (v2\<lparr>player := player v2 @ [EndOfStream]\<rparr>)))))"

subsection \<open>Direct playback\<close>

text \<open>\<^verbatim>\<open>chunks[chunkIndex] = data\<close> on an array: an index beyond the end extends the array,
  leaving holes.\<close>

definition setAt :: "bytes option list \<Rightarrow> nat \<Rightarrow> bytes \<Rightarrow> bytes option list" where
  "setAt chunks i d =
     (if i < length chunks then chunks[i := Some d]
      else chunks @ replicate (i - length chunks) None @ [Some d])"

fun keepResults :: "nat \<Rightarrow> fetch_result list \<Rightarrow> nat \<Rightarrow> bytes option list \<Rightarrow> bytes option list" where
  "keepResults i [] idx chunks = chunks"
| "keepResults i (r # rs) idx chunks =
     keepResults i rs (Suc idx)
       (case data r of
          Some d \<Rightarrow> if success r then setAt chunks (i + idx) d else chunks
        | None \<Rightarrow> chunks)"

type_synonym direct = "bytes option list \<times> state"

definition directBatch :: "world \<Rightarrow> address list \<Rightarrow> nat \<Rightarrow> direct \<Rightarrow> direct" where
  "directBatch w leafAddresses i dl =
     (case dl of (chunks, s) \<Rightarrow>
      let batchEnd = min (i + BATCH_SIZE w) (length leafAddresses);
          batch = take (batchEnd - i) (drop i leafAddresses)
      in case fetchChunksBatch_video w batch 2 s of
           (None, s1) \<Rightarrow> (chunks, log BatchFailed s1)
         | (Some results, s1) \<Rightarrow>
             (keepResults i results 0 chunks,
              if batchEnd < length leafAddresses then sleep 100 s1 else s1))"

function directBatches :: "world \<Rightarrow> address list \<Rightarrow> nat \<Rightarrow> direct \<Rightarrow> direct" where
  "directBatches w leafAddresses i dl =
     (if i < length leafAddresses
      then directBatches w leafAddresses (i + BATCH_SIZE w) (directBatch w leafAddresses i dl)
      else dl)"
  by pat_completeness auto
termination
  by (relation "measure (\<lambda>(w, leafAddresses, i, dl). length leafAddresses - i)")
     (auto simp: BATCH_SIZE_def split: url_param.split option.split)

declare directBatches.simps [simp del]

text \<open>\<^verbatim>\<open>isRawMP4\<close>: the bytes \<^verbatim>\<open>ftyp\<close> at positions 4 to 7.\<close>

definition isRawMP4 :: "bytes \<Rightarrow> bool" where
  "isRawMP4 d =
     (\<not> length d < 8 \<and> d ! 4 = 0x66 \<and> d ! 5 = 0x74 \<and> d ! 6 = 0x79 \<and> d ! 7 = 0x70)"

text \<open>The bytes that direct playback hands to the player: the whole buffer when it is a
  raw MP4, when it has no four bytes to read (\<^verbatim>\<open>getUint32\<close> throws into the empty
  \<^verbatim>\<open>catch\<close>), or when the length read is not below the buffer length and below 10000.\<close>

definition videoDataOf :: "bytes \<Rightarrow> bytes" where
  "videoDataOf finalData =
     (if isRawMP4 finalData then finalData
      else if length finalData < 4 then finalData
      else
        let hdrLen = getUint32 finalData in
        if hdrLen < length finalData \<and> hdrLen < 10000
        then sliceArray finalData (int (4 + hdrLen)) (int (length finalData))
        else finalData)"

text \<open>\<^verbatim>\<open>fallbackLoad(rootChunk, depth, totalSize)\<close>: discovery and batch loading once more,
  the chunks that loaded concatenated in index order, and the blob.  It starts playback
  without looking at \<^verbatim>\<open>isPlaying\<close>.\<close>

definition validChunks :: "bytes option list \<Rightarrow> bytes list" where
  "validChunks chunks = concat (map (\<lambda>c. case c of Some d \<Rightarrow> [d] | None \<Rightarrow> []) chunks)"

definition fallbackLoad ::
  "world \<Rightarrow> address \<Rightarrow> nat \<Rightarrow> state \<times> video \<Rightarrow> failure option \<times> state \<times> video" where
  "fallbackLoad w rootChunk depth sv =
     (case sv of (s, v) \<Rightarrow>
      case collectLeafAddresses_video w rootChunk depth s of
        (Inl e, s1) \<Rightarrow> (Some (Thrown e), s1, v)
      | (Inr leafAddresses, s1) \<Rightarrow>
          (case directBatches w leafAddresses 0 (replicate (length leafAddresses) None, s1) of
             (chunks, s2) \<Rightarrow>
               let finalData = concat (validChunks chunks) in
               (None, s2, v\<lparr>player := player v @ [BlobSrc (videoDataOf finalData), Play]\<rparr>)))"

text \<open>
  The part of \<^verbatim>\<open>init\<close> that follows the lookup of the site: \<^verbatim>\<open>rootChunk\<close> and \<^verbatim>\<open>depth\<close>
  are what the registry answered.  An error that leaves it ends in the outer \<^verbatim>\<open>catch\<close>,
  which shows the error page.
\<close>

definition init ::
  "media \<Rightarrow> world \<Rightarrow> address \<Rightarrow> nat \<Rightarrow> state \<times> video \<Rightarrow> failure option \<times> state \<times> video" where
  "init m w rootChunk depth sv =
     (if forceRaw m then fallbackLoad w rootChunk depth sv
      else if mediaSourceSupported m then
        (case streamVideoWithSegments m w rootChunk depth sv of
           (None, st, sv') \<Rightarrow> (None, sv')
         | (Some e, st, sv') \<Rightarrow> fallbackLoad w rootChunk depth sv')
      else fallbackLoad w rootChunk depth sv)"

text \<open>The page as the module leaves it when it is loaded.\<close>

definition initialVideo :: video where
  "initialVideo =
     \<lparr>chunkDataMap = (\<lambda>i. None), segmentMap = SegmentMap [], headerLength = 0,
      isPlaying = False, player = []\<rparr>"

subsection \<open>Reading the calls made on the page\<close>

text \<open>The segment numbers handed to \<^verbatim>\<open>appendBuffer\<close>, in the order of the calls; the chunk
  numbers put into the map; and the test that every append of a segment comes after
  the chunks of \<open>cover k\<close> were put into the map (\<open>seen\<close> are the chunks put before).\<close>

definition released :: "vevent list \<Rightarrow> nat list" where
  "released evs = concat (map (\<lambda>e. case e of AppendBuffer k d \<Rightarrow> [k] | _ \<Rightarrow> []) evs)"

definition arrived :: "vevent list \<Rightarrow> nat set" where
  "arrived evs = {i. ChunkSet i \<in> set evs}"





section \<open>Example inputs\<close>

text \<open>
  A small tree in the shape of the specification's scenario: a root of depth 2, two
  branch pages grouping the leaves 0, 1, 2 and 3, 4, and five leaves (three bytes each,
  the last one shorter).  Addresses are twenty equal bytes.
\<close>

definition page :: "byte \<Rightarrow> address" where
  "page k = replicate 20 k"

definition exampleTree :: "address \<Rightarrow> bytes" where
  "exampleTree a =
     (if a = page 0 then page 1 @ page 2
      else if a = page 1 then page 11 @ page 12 @ page 13
      else if a = page 2 then page 14 @ page 15
      else if a = page 11 then [1, 1, 1]
      else if a = page 12 then [2, 2, 2]
      else if a = page 13 then [3, 3, 3]
      else if a = page 14 then [4, 4, 4]
      else if a = page 15 then [5]
      else [])"

definition initialState :: state where
  "initialState = \<lparr>reads = (\<lambda>a. 0), aggs = 0, trace = []\<rparr>"

text \<open>A network that drops the first read of the root and of the second branch page, and
  every aggregate call; batches of two.\<close>

definition flakyWorld :: world where
  "flakyWorld =
     \<lparr>readPage = (\<lambda>a n. if n = 0 \<and> (a = page 0 \<or> a = page 2) then None
                         else Some (exampleTree a)),
      aggregate3 = (\<lambda>n addrs. None),
      decodeAbiParameters = Some,
      USE_MULTICALL = True, urlBatchSize = Num 2, cfgBatchSize = None, cfgChunkSize = Some 3\<rparr>"

text \<open>A network on which the second branch page can never be read.\<close>

definition deadBranchWorld :: world where
  "deadBranchWorld =
     \<lparr>readPage = (\<lambda>a n. if a = page 2 then None else Some (exampleTree a)),
      aggregate3 = (\<lambda>n addrs. None),
      decodeAbiParameters = Some,
      USE_MULTICALL = True, urlBatchSize = Num 2, cfgBatchSize = None, cfgChunkSize = Some 3\<rparr>"

text \<open>A network whose aggregate call fails twice and answers from the third call on; single
  reads always answer.\<close>

definition thirdTimeLuckyWorld :: world where
  "thirdTimeLuckyWorld =
     \<lparr>readPage = (\<lambda>a n. Some (exampleTree a)),
      aggregate3 = (\<lambda>n addrs. if n < 2 then None
                      else Some (map (\<lambda>a. \<lparr>slot_success = True, returnData = exampleTree a\<rparr>) addrs)),
      decodeAbiParameters = Some,
      USE_MULTICALL = True, urlBatchSize = Num 2, cfgBatchSize = None, cfgChunkSize = Some 3\<rparr>"

text \<open>A network on which the leaf at \<open>page 12\<close> can never be fetched, by a single read or
  through an aggregate call; and one without any failure.  Their aggregate slots carry the
  page content behind one header byte, which the decoder strips.\<close>

definition stripHeader :: "bytes \<Rightarrow> bytes option" where
  "stripHeader bs = (case bs of [] \<Rightarrow> None | b # rest \<Rightarrow> Some rest)"

definition lossyWorld :: world where
  "lossyWorld =
     \<lparr>readPage = (\<lambda>a n. if a = page 12 then None else Some (exampleTree a)),
      aggregate3 = (\<lambda>n addrs. Some (map (\<lambda>a. \<lparr>slot_success = (a \<noteq> page 12),
                                                 returnData = 32 # exampleTree a\<rparr>) addrs)),
      decodeAbiParameters = stripHeader,
      USE_MULTICALL = True, urlBatchSize = Num 2, cfgBatchSize = None, cfgChunkSize = Some 3\<rparr>"

definition steadyWorld :: world where
  "steadyWorld =
     \<lparr>readPage = (\<lambda>a n. Some (exampleTree a)),
      aggregate3 = (\<lambda>n addrs. Some (map (\<lambda>a. \<lparr>slot_success = True,
                                                 returnData = 32 # exampleTree a\<rparr>) addrs)),
      decodeAbiParameters = stripHeader,
      USE_MULTICALL = True, urlBatchSize = Num 2, cfgBatchSize = None, cfgChunkSize = Some 3\<rparr>"

text \<open>A network on which the first three reads of the leaf at \<open>page 12\<close> fail and every
  aggregate call fails.\<close>

definition flakyLeafWorld :: world where
  "flakyLeafWorld =
     \<lparr>readPage = (\<lambda>a n. if a = page 12 \<and> n < 3 then None else Some (exampleTree a)),
      aggregate3 = (\<lambda>n addrs. None),
      decodeAbiParameters = stripHeader,
      USE_MULTICALL = True, urlBatchSize = Num 2, cfgBatchSize = None, cfgChunkSize = Some 3\<rparr>"

definition threeLeaves :: "leaf list" where
  "threeLeaves = [\<lparr>index = 0, address = page 11\<rparr>, \<lparr>index = 1, address = page 12\<rparr>,
                  \<lparr>index = 2, address = page 13\<rparr>]"



text \<open>A network on which the leaf at \<open>page 11\<close> fails its first two reads (the two attempts
  of the batch phase) and the leaf at \<open>page 13\<close> can never be read; every aggregate call
  fails.\<close>

definition mixedWorld :: world where
  "mixedWorld =
     \<lparr>readPage = (\<lambda>a n. if a = page 13 \<or> (a = page 11 \<and> n < 2) then None
                        else Some (exampleTree a)),
      aggregate3 = (\<lambda>n addrs. None),
      decodeAbiParameters = stripHeader,
      USE_MULTICALL = True, urlBatchSize = Num 2, cfgBatchSize = None, cfgChunkSize = Some 3\<rparr>"

section \<open>Example videos\<close>

text \<open>
  Three chunks of eight bytes behind a root page of depth 1, and a segment map of three
  segments; the network answers every read, chunks are read one by one, in batches of
  two, and the chunk size is 8.  They serve as inputs of the functions on segments.
\<close>

definition videoTree :: "address \<Rightarrow> bytes" where
  "videoTree a =
     (if a = page 0 then page 21 @ page 22 @ page 23
      else if a = page 21 then [0, 0, 0, 2, 91, 93, 10, 11]
      else if a = page 22 then [12, 13, 14, 15, 16, 17, 18, 19]
      else if a = page 23 then [20, 21, 22, 23, 24, 25, 26, 27]
      else [])"

definition videoSegments :: "segment list" where
  "videoSegments =
     [\<lparr>seg_type = ''init'', byteStart = 0, byteEnd = 4\<rparr>,
      \<lparr>seg_type = ''media'', byteStart = 4, byteEnd = 10\<rparr>,
      \<lparr>seg_type = ''media'', byteStart = 10, byteEnd = 18\<rparr>]"

definition videoWorld :: world where
  "videoWorld =
     \<lparr>readPage = (\<lambda>a n. Some (videoTree a)),
      aggregate3 = (\<lambda>n addrs. None),
      decodeAbiParameters = Some,
      USE_MULTICALL = False, urlBatchSize = Num 2, cfgBatchSize = None, cfgChunkSize = Some 8\<rparr>"

text \<open>A chunk map holding these three chunks, with a header length of 2 and that segment
  map; and one whose last chunk has three bytes only, so that its content ends at byte
  19, before the end of the third segment.\<close>

definition loadedVideo :: video where
  "loadedVideo =
     \<lparr>chunkDataMap = (\<lambda>i. if i = 0 then Some (videoTree (page 21))
                           else if i = 1 then Some (videoTree (page 22))
                           else if i = 2 then Some (videoTree (page 23)) else None),
      segmentMap = SegmentMap videoSegments, headerLength = 2,
      isPlaying = False, player = [ChunkSet 0, ChunkSet 1, ChunkSet 2]\<rparr>"

definition shortTailVideo :: video where
  "shortTailVideo =
     \<lparr>chunkDataMap = (\<lambda>i. if i = 0 then Some [0, 0, 0, 2, 91, 93, 10, 11]
                           else if i = 1 then Some [12, 13, 14, 15, 16, 17, 18, 19]
                           else if i = 2 then Some [20, 21, 22] else None),
      segmentMap = SegmentMap videoSegments, headerLength = 2,
      isPlaying = False, player = [ChunkSet 0, ChunkSet 1, ChunkSet 2]\<rparr>"

text \<open>
  A clip as the uploader stores it.  Its header is the JSON text
  \<^verbatim>\<open>[{"type":"init","byteStart":0,"byteEnd":4},{"type":"media","byteStart":4,"byteEnd":20},{"type":"media","byteStart":20,"byteEnd":40}]\<close>
  of 132 bytes; the content is the length prefix \<open>[0, 0, 0, 132]\<close>, the header, and forty
  bytes of media, cut into chunks of 50 bytes (the last has 26) behind a
  root page of depth 1.  Chunks are read one by one, in batches of one.  The parser
  reads the header text as \<^verbatim>\<open>JSON.parse\<close> does; the other byte strings handed to it in
  the examples are no JSON, and it rejects them.
\<close>

definition clipHeader :: bytes where
  "clipHeader =
     [91, 123, 34, 116, 121, 112, 101, 34, 58, 34, 105, 110, 105, 116, 34, 44,
      34, 98, 121, 116, 101, 83, 116, 97, 114, 116, 34, 58, 48, 44, 34, 98,
      121, 116, 101, 69, 110, 100, 34, 58, 52, 125, 44, 123, 34, 116, 121, 112,
      101, 34, 58, 34, 109, 101, 100, 105, 97, 34, 44, 34, 98, 121, 116, 101,
      83, 116, 97, 114, 116, 34, 58, 52, 44, 34, 98, 121, 116, 101, 69, 110,
      100, 34, 58, 50, 48, 125, 44, 123, 34, 116, 121, 112, 101, 34, 58, 34,
      109, 101, 100, 105, 97, 34, 44, 34, 98, 121, 116, 101, 83, 116, 97, 114,
      116, 34, 58, 50, 48, 44, 34, 98, 121, 116, 101, 69, 110, 100, 34, 58,
      52, 48, 125, 93]"

definition clipSegments :: "segment list" where
  "clipSegments =
     [\<lparr>seg_type = ''init'', byteStart = 0, byteEnd = 4\<rparr>,
      \<lparr>seg_type = ''media'', byteStart = 4, byteEnd = 20\<rparr>,
      \<lparr>seg_type = ''media'', byteStart = 20, byteEnd = 40\<rparr>]"



definition clipMedia :: media where
  "clipMedia =
     \<lparr>jsonParse = (\<lambda>bs. if bs = clipHeader then SegmentMap clipSegments else Null),
      appendAccepted = (\<lambda>k. True),
      sourceOpens = True, mediaSourceSupported = True, forceRaw = False\<rparr>"

text \<open>The same player with \<^verbatim>\<open>raw=true\<close> in the URL.\<close>

definition rawMedia :: media where
  "rawMedia =
     \<lparr>jsonParse = (\<lambda>bs. if bs = clipHeader then SegmentMap clipSegments else Null),
      appendAccepted = (\<lambda>k. True),
      sourceOpens = True, mediaSourceSupported = True, forceRaw = True\<rparr>"

text \<open>
  A raw MP4 file stored without a header, in four chunks of eight bytes: its bytes 4 to 7
  spell \<^verbatim>\<open>ftyp\<close>, and its first four bytes, read as a header length, give 24, so that the
  bytes 4 to 27 are taken for the header.  And a video whose first four bytes declare a
  header of 256 bytes, far more than its sixteen bytes of content.
\<close>

definition rawMp4Tree :: "address \<Rightarrow> bytes" where
  "rawMp4Tree a =
     (if a = page 0 then page 41 @ page 42 @ page 43 @ page 44
      else if a = page 41 then [0, 0, 0, 24, 102, 116, 121, 112]
      else if a = page 42 then [69, 122, 175, 228, 91, 144, 197, 60]
      else if a = page 43 then [113, 166, 219, 82, 135, 188, 51, 104]
      else if a = page 44 then [157, 210, 73, 126, 179, 42, 95, 148]
      else [])"

definition rawMp4World :: world where
  "rawMp4World =
     \<lparr>readPage = (\<lambda>a n. Some (rawMp4Tree a)),
      aggregate3 = (\<lambda>n addrs. None),
      decodeAbiParameters = Some,
      USE_MULTICALL = False, urlBatchSize = Num 2, cfgBatchSize = None, cfgChunkSize = Some 8\<rparr>"

definition hugeHeaderTree :: "address \<Rightarrow> bytes" where
  "hugeHeaderTree a =
     (if a = page 0 then page 21 @ page 22
      else if a = page 21 then [0, 0, 1, 0, 91, 93, 10, 11]
      else if a = page 22 then [12, 13, 14, 15, 16, 17, 18, 19]
      else [])"

definition hugeHeaderWorld :: world where
  "hugeHeaderWorld =
     \<lparr>readPage = (\<lambda>a n. Some (hugeHeaderTree a)),
      aggregate3 = (\<lambda>n addrs. None),
      decodeAbiParameters = Some,
      USE_MULTICALL = False, urlBatchSize = Num 2, cfgBatchSize = None, cfgChunkSize = Some 8\<rparr>"

section \<open>Lemmas: fetching and discovery\<close>

subsection \<open>Single-address fetch\<close>

lemma fetchAttempts_step:
  "i < retries \<Longrightarrow>
   fetchAttempts delay w a retries i s =
     (case readPage w a (reads s a) of
        Some d \<Rightarrow> (Data d, afterRead a s)
      | None \<Rightarrow>
          if Suc i = retries then (Rejected, afterRead a s)
          else fetchAttempts delay w a retries (Suc i) (sleep (delay i) (afterRead a s)))"
  by (subst fetchAttempts.simps) (auto simp: readContract_def afterRead_def split: option.split)

lemma fetchAttempts_done: "\<not> i < retries \<Longrightarrow> fetchAttempts delay w a retries i s = (NoValue, s)"
  by (subst fetchAttempts.simps) simp

lemma fetchAttempts_not_NoValue:
  "i < retries \<Longrightarrow> fst (fetchAttempts delay w a retries i s) \<noteq> NoValue"
proof (induction "retries - i" arbitrary: i s)
  case 0
  then show ?case by simp
next
  case (Suc n)
  then have "Suc i \<noteq> retries \<Longrightarrow> n = retries - Suc i \<and> Suc i < retries" by arith
  with Suc show ?case
    by (auto simp: fetchAttempts_step split: option.split)
qed

lemma fetchAttempts_consistent:
  "consistent w \<sigma> \<Longrightarrow> fetchAttempts delay w a retries i s = (Data d, s') \<Longrightarrow> d = \<sigma> a"
proof (induction "retries - i" arbitrary: i s)
  case 0
  then show ?case by (simp add: fetchAttempts_done)
next
  case (Suc n)
  then have lt: "i < retries" by arith
  have nx: "Suc i \<noteq> retries \<Longrightarrow> n = retries - Suc i" using Suc.hyps(2) by arith
  from Suc.prems(1) have c: "readPage w a (reads s a) = None \<or> readPage w a (reads s a) = Some (\<sigma> a)"
    by (simp add: consistent_def)
  from c show ?case
  proof
    assume "readPage w a (reads s a) = None"
    with Suc.prems lt nx Suc.hyps(1) show ?thesis
      by (auto simp: fetchAttempts_step split: if_splits)
  next
    assume "readPage w a (reads s a) = Some (\<sigma> a)"
    with Suc.prems lt show ?thesis
      by (auto simp: fetchAttempts_step)
  qed
qed

lemma fetchAttempts_always_fail:
  "\<forall>n. readPage w a n = None \<Longrightarrow> i < retries \<Longrightarrow>
   fst (fetchAttempts delay w a retries i s) = Rejected"
proof (induction "retries - i" arbitrary: i s)
  case 0
  then show ?case by simp
next
  case (Suc n)
  then have "Suc i \<noteq> retries \<Longrightarrow> n = retries - Suc i \<and> Suc i < retries" by arith
  with Suc show ?case
    by (auto simp: fetchAttempts_step)
qed

lemma fetchAttempts_always_ok:
  "\<forall>n. readPage w a n = Some p \<Longrightarrow> i < retries \<Longrightarrow>
   fetchAttempts delay w a retries i s = (Data p, afterRead a s)"
  by (simp add: fetchAttempts_step)

lemma fetchAttempts_frame:
  "fetchAttempts delay w a retries i s = (f, s') \<Longrightarrow>
   aggs s' = aggs s \<and> (\<forall>b. b \<noteq> a \<longrightarrow> reads s' b = reads s b) \<and> reads s a \<le> reads s' a
   \<and> (\<exists>evs. trace s' = trace s @ evs \<and> (\<forall>e\<in>set evs. e = ReadCall a \<or> (\<exists>ms. e = Sleep ms)))"
proof (induction "retries - i" arbitrary: i s)
  case 0
  then show ?case by (simp add: fetchAttempts_done)
next
  case (Suc n)
  then have lt: "i < retries" by arith
  have nx: "Suc i \<noteq> retries \<Longrightarrow> n = retries - Suc i" using Suc.hyps(2) by arith
  show ?case
  proof (cases "readPage w a (reads s a) = None \<and> Suc i \<noteq> retries")
    case True
    with Suc.prems lt have
      "fetchAttempts delay w a retries (Suc i) (sleep (delay i) (afterRead a s)) = (f, s')"
      by (simp add: fetchAttempts_step)
    from Suc.hyps(1)[OF nx this] True show ?thesis
      by (auto simp: sleep_def afterRead_def)
  next
    case False
    with Suc.prems lt show ?thesis
      by (auto simp: fetchAttempts_step afterRead_def split: option.splits if_splits)
  qed
qed

lemma fetchChunkData_3_rejected:
  assumes "readPage w a (reads s a) = None"
    and "readPage w a (Suc (reads s a)) = None"
    and "readPage w a (Suc (Suc (reads s a))) = None"
  shows "fetchChunkData w a 3 s =
    (Rejected, s\<lparr>reads := (reads s)(a := reads s a + 3),
                 trace := trace s @ [ReadCall a, Sleep 200, ReadCall a, Sleep 400, ReadCall a]\<rparr>)"
  using assms
  by (simp add: fetchChunkData_def fetchAttempts_step afterRead_def sleep_def loaderDelay_def
      numeral_3_eq_3)

subsection \<open>Discovery\<close>

lemma descriptors_Nil [simp]: "descriptors n [] = []"
  by (simp add: descriptors_def)

lemma descriptors_append:
  "descriptors n (xs @ ys) = descriptors n xs @ descriptors (n + length xs) ys"
  by (simp add: descriptors_def enumerate_append_eq)

lemma descriptors_single [simp]: "descriptors n [a] = [\<lparr>index = n, address = a\<rparr>]"
  by (simp add: descriptors_def)

lemma length_descriptors [simp]: "length (descriptors n as) = length as"
  by (simp add: descriptors_def)

lemma map_index_descriptors [simp]: "map index (descriptors n as) = [n..<n + length as]"
proof -
  have "index \<circ> (\<lambda>(i, a). \<lparr>index = i, address = a\<rparr>) = fst" by auto
  then show ?thesis by (simp add: descriptors_def)
qed

lemma map_address_descriptors [simp]: "map address (descriptors n as) = as"
proof -
  have "address \<circ> (\<lambda>(i, a). \<lparr>index = i, address = a\<rparr>) = snd" by auto
  then show ?thesis by (simp add: descriptors_def)
qed

lemma traverse_order:
  "consistent w \<sigma> \<Longrightarrow> traverseNode w a d sc = (None, sc') \<Longrightarrow>
           fst sc' = fst sc @ descriptors (fst (snd sc)) (depthFirstLeaves \<sigma> d a)
           \<and> fst (snd sc') = fst (snd sc) + length (depthFirstLeaves \<sigma> d a)"
  "consistent w \<sigma> \<Longrightarrow> traverseChildren w cs d sc = (None, sc') \<Longrightarrow>
           fst sc' = fst sc @ descriptors (fst (snd sc)) (concat (map (depthFirstLeaves \<sigma> d) cs))
           \<and> fst (snd sc') = fst (snd sc) + length (concat (map (depthFirstLeaves \<sigma> d) cs))"
proof (induction w a d sc and w cs d sc arbitrary: sc' and sc' rule: traverseNode_traverseChildren.induct)
  case (1 w a leaves currentIndex s)
  then show ?case by auto
next
  case (2 w a d leaves currentIndex s)
  obtain f s1 where f: "fetchChunkData w a 3 s = (f, s1)" by (cases "fetchChunkData w a 3 s")
  with "2.prems"(2) obtain bs where bs: "f = Data bs"
    by (cases f) (auto split: prod.splits option.splits)
  with f "2.prems"(1) have "bs = \<sigma> a"
    by (auto simp: fetchChunkData_def dest: fetchAttempts_consistent)
  moreover from f bs "2.prems"(2)
  have "traverseChildren w (childAddrs bs) d (leaves, currentIndex, s1) = (None, sc')"
    by (auto split: prod.splits option.splits)
  ultimately show ?case
    using "2.IH"[OF f[symmetric] bs "2.prems"(1)] by auto
next
  case (3 w d sc)
  then show ?case by auto
next
  case (4 w c cs d sc)
  obtain e sc1 where r: "traverseNode w c d sc = (e, sc1)" by (cases "traverseNode w c d sc")
  with "4.prems"(2) have e: "e = None" and rest: "traverseChildren w cs d sc1 = (None, sc')"
    by (auto split: option.splits)
  from "4.IH"(1)[OF "4.prems"(1)] r e
  have a: "fst sc1 = fst sc @ descriptors (fst (snd sc)) (depthFirstLeaves \<sigma> d c)"
     "fst (snd sc1) = fst (snd sc) + length (depthFirstLeaves \<sigma> d c)" by auto
  from "4.IH"(2)[OF r[symmetric] _ "4.prems"(1) rest] e
  have b: "fst sc' = fst sc1 @ descriptors (fst (snd sc1)) (concat (map (depthFirstLeaves \<sigma> d) cs))"
     "fst (snd sc') = fst (snd sc1) + length (concat (map (depthFirstLeaves \<sigma> d) cs))" by auto
  from a b show ?case by (simp add: descriptors_append)
qed

lemma collectLeaves_order:
  "consistent w \<sigma> \<Longrightarrow> collectLeaves w a d acc = (None, acc') \<Longrightarrow>
           fst acc' = fst acc @ depthFirstLeaves \<sigma> d a"
  "consistent w \<sigma> \<Longrightarrow> collectLeavesOf w cs d acc = (None, acc') \<Longrightarrow>
           fst acc' = fst acc @ concat (map (depthFirstLeaves \<sigma> d) cs)"
proof (induction w a d acc and w cs d acc arbitrary: acc' and acc' rule: collectLeaves_collectLeavesOf.induct)
  case (1 w a leaves s)
  then show ?case by auto
next
  case (2 w a d leaves s)
  obtain f s1 where f: "readChunk w a 3 s = (f, s1)" by (cases "readChunk w a 3 s")
  with "2.prems"(2) obtain bs where bs: "f = Data bs"
    by (cases f) (auto split: prod.splits option.splits)
  with f "2.prems"(1) have "bs = \<sigma> a"
    by (auto simp: readChunk_def dest: fetchAttempts_consistent)
  moreover from f bs "2.prems"(2)
  have "collectLeavesOf w (childAddrs bs) d (leaves, s1) = (None, acc')"
    by (auto split: prod.splits option.splits)
  ultimately show ?case
    using "2.IH"[OF f[symmetric] bs "2.prems"(1)] by auto
next
  case (3 w d acc)
  then show ?case by auto
next
  case (4 w c cs d acc)
  obtain e acc1 where r: "collectLeaves w c d acc = (e, acc1)" by (cases "collectLeaves w c d acc")
  with "4.prems"(2) have e: "e = None" and rest: "collectLeavesOf w cs d acc1 = (None, acc')"
    by (auto split: option.splits)
  from "4.IH"(1)[OF "4.prems"(1)] r e
  have a: "fst acc1 = fst acc @ depthFirstLeaves \<sigma> d c" by auto
  from "4.IH"(2)[OF r[symmetric] _ "4.prems"(1) rest] e
  have b: "fst acc' = fst acc1 @ concat (map (depthFirstLeaves \<sigma> d) cs)" by auto
  from a b show ?case by simp
qed

lemma traverse_error_free:
  "\<forall>a n. readPage w a n = Some (\<sigma> a) \<Longrightarrow> fst (traverseNode w a d sc) = None"
  "\<forall>a n. readPage w a n = Some (\<sigma> a) \<Longrightarrow> fst (traverseChildren w cs d sc) = None"
proof (induction w a d sc and w cs d sc rule: traverseNode_traverseChildren.induct)
  case (1 w a leaves currentIndex s)
  then show ?case by simp
next
  case (2 w a d leaves currentIndex s)
  from "2.prems" have f: "fetchChunkData w a 3 s = (Data (\<sigma> a), afterRead a s)"
    by (simp add: fetchChunkData_def fetchAttempts_always_ok)
  from "2.IH"[OF f[symmetric] refl "2.prems"] f show ?case
    by (auto split: prod.splits option.splits)
next
  case (3 w d sc)
  then show ?case by simp
next
  case (4 w c cs d sc)
  obtain e sc1 where r: "traverseNode w c d sc = (e, sc1)" by (cases "traverseNode w c d sc")
  with "4.IH"(1)[OF "4.prems"] have e: "e = None" by simp
  from "4.IH"(2)[OF r[symmetric] _ "4.prems"] e r show ?case by simp
qed

lemma collectLeaves_error_free:
  "\<forall>a n. readPage w a n = Some (\<sigma> a) \<Longrightarrow> fst (collectLeaves w a d acc) = None"
  "\<forall>a n. readPage w a n = Some (\<sigma> a) \<Longrightarrow> fst (collectLeavesOf w cs d acc) = None"
proof (induction w a d acc and w cs d acc rule: collectLeaves_collectLeavesOf.induct)
  case (1 w a leaves s)
  then show ?case by simp
next
  case (2 w a d leaves s)
  from "2.prems" have f: "readChunk w a 3 s = (Data (\<sigma> a), afterRead a s)"
    by (simp add: readChunk_def fetchAttempts_always_ok)
  from "2.IH"[OF f[symmetric] refl "2.prems"] f show ?case
    by (auto split: prod.splits option.splits)
next
  case (3 w d acc)
  then show ?case by simp
next
  case (4 w c cs d acc)
  obtain e acc1 where r: "collectLeaves w c d acc = (e, acc1)" by (cases "collectLeaves w c d acc")
  with "4.IH"(1)[OF "4.prems"] have e: "e = None" by simp
  from "4.IH"(2)[OF r[symmetric] _ "4.prems"] e r show ?case by simp
qed

subsection \<open>Evaluating the examples\<close>

lemma page_eq [simp]: "page i = page j \<longleftrightarrow> i = j"
  by (simp add: page_def)

lemma length_page [simp]: "length (page k) = 20"
  by (simp add: page_def)

lemma page_not_Nil [simp]: "page k \<noteq> []" "page k @ xs \<noteq> []"
  by (simp_all add: page_def)

lemma childAddrs_Nil [simp]: "childAddrs [] = []"
  by (simp add: childAddrs.simps)

lemma childAddrs_page [simp]: "childAddrs (page k @ rest) = page k # childAddrs rest"
  by (subst childAddrs.simps) simp

lemma childAddrs_page1 [simp]: "childAddrs (page k) = [page k]"
  using childAddrs_page[of k "[]"] by simp

lemmas run_defs =
  fetchChunkData_def readChunk_def fetchAttempts_step fetchAttempts_done loaderDelay_def
  afterRead_def sleep_def log_def initialState_def Let_def
  collectLeafAddresses_def

lemmas load_defs =
  fetchTreeSequential_def loadChunksInBatches_def loadBatches.simps loadBatch_def BATCH_SIZE_def
  fetchChunksBatch_def batchOrIndividually_def batchAttempts.simps readAggregate3_def resultOf_def
  parseResult_def stripHeader_def retryFailedChunks_def retryRounds.simps assemble_def typedSet_def


section \<open>Lemmas: batches, loading and retrying\<close>

subsection \<open>Batch fetch\<close>

lemma individually_length:
  "individually delay w addrs retries s = (rs, s') \<Longrightarrow> length rs = length addrs"
  by (induction addrs arbitrary: rs s s') (auto split: prod.splits)

lemma batchAttempts_step:
  "i < retries \<Longrightarrow>
   batchAttempts delay w addrs retries i s =
     (case aggregate3 w (aggs s) addrs of
        Some results \<Rightarrow> (Some (map (parseResult w) results), snd (readAggregate3 w addrs s))
      | None \<Rightarrow>
          if Suc i = retries then
            (case individually delay w addrs retries (snd (readAggregate3 w addrs s)) of
               (results, s2) \<Rightarrow> (Some results, s2))
          else batchAttempts delay w addrs retries (Suc i)
                 (sleep (min (300 * 2 ^ i) 3000) (snd (readAggregate3 w addrs s))))"
  by (subst batchAttempts.simps) (auto simp: readAggregate3_def split: option.split)

lemma batchAttempts_aligned:
  "aligned w \<Longrightarrow> i < retries \<Longrightarrow> batchAttempts delay w addrs retries i s = (res, s') \<Longrightarrow>
   \<exists>rs. res = Some rs \<and> length rs = length addrs"
proof (induction "retries - i" arbitrary: i s)
  case 0
  then show ?case by simp
next
  case (Suc n)
  have nx: "Suc i \<noteq> retries \<Longrightarrow> n = retries - Suc i \<and> Suc i < retries" using Suc.hyps(2) by arith
  show ?case
  proof (cases "aggregate3 w (aggs s) addrs")
    case None
    show ?thesis
    proof (cases "Suc i = retries")
      case True
      with None Suc.prems show ?thesis
        by (auto simp: batchAttempts_step split: prod.splits dest: individually_length)
    next
      case False
      with None Suc.prems have
        "batchAttempts delay w addrs retries (Suc i)
           (sleep (min (300 * 2 ^ i) 3000) (snd (readAggregate3 w addrs s))) = (res, s')"
        by (simp add: batchAttempts_step)
      with Suc.hyps(1)[of "Suc i"] nx False Suc.prems(1) show ?thesis by blast
    qed
  next
    case (Some slots)
    with Suc.prems show ?thesis
      by (auto simp: batchAttempts_step aligned_def)
  qed
qed

lemma fetchChunksBatch_aligned:
  "aligned w \<Longrightarrow> 0 < retries \<Longrightarrow> fetchChunksBatch w addrs retries s = (res, s') \<Longrightarrow>
   \<exists>rs. res = Some rs \<and> length rs = length addrs"
  by (auto simp: fetchChunksBatch_def batchOrIndividually_def split: if_splits prod.splits
      dest: individually_length batchAttempts_aligned)

subsection \<open>Loading\<close>

lemma loadedChunks_simps [simp]:
  "loadedChunks [] = []"
  "loadedChunks ((lf, r) # prs) =
     (if okResult r then \<lparr>chunk_index = index lf, chunk_data = data r\<rparr> # loadedChunks prs
      else loadedChunks prs)"
  "loadedChunks (xs @ ys) = loadedChunks xs @ loadedChunks ys"
  by (simp_all add: loadedChunks_def)

lemma failedLeaves_simps [simp]:
  "failedLeaves [] = []"
  "failedLeaves ((lf, r) # prs) = (if okResult r then failedLeaves prs else lf # failedLeaves prs)"
  "failedLeaves (xs @ ys) = failedLeaves xs @ failedLeaves ys"
  by (simp_all add: failedLeaves_def)

lemma processResults_aligned:
  "idx + length rs = length batch \<Longrightarrow>
   \<exists>s'. processResults batch rs idx (chunks, failed, s) =
           (False, chunks @ loadedChunks (zip (drop idx batch) rs),
            failed @ map Some (failedLeaves (zip (drop idx batch) rs)), s')
        \<and> reads s' = reads s \<and> aggs s' = aggs s"
proof (induction rs arbitrary: idx chunks failed s)
  case Nil
  then show ?case by simp
next
  case (Cons r rs)
  then have lt: "idx < length batch" and nx: "Suc idx + length rs = length batch" by auto
  from lt have d: "drop idx batch = batch ! idx # drop (Suc idx) batch"
    by (simp add: Cons_nth_drop_Suc)
  show ?case
  proof (cases "okResult r")
    case True
    from Cons.IH[OF nx, of "chunks @ [\<lparr>chunk_index = index (batch ! idx), chunk_data = data r\<rparr>]" failed s]
    show ?thesis using True lt d by (auto simp: okResult_def)
  next
    case False
    from Cons.IH[OF nx, of chunks "failed @ [Some (batch ! idx)]" "log (ChunkFailed (index (batch ! idx))) s"]
    show ?thesis using False lt d by (auto simp: okResult_def log_def)
  qed
qed

lemma batch_slice: "take (min (i + b) (length xs) - i) (drop i xs) = take b (drop i xs)"
  by (cases "i + b \<le> length xs") (auto simp: min_def)

lemma loadBatch_results:
  assumes batch: "batchGives w Q"
  shows "\<exists>rs s'. list_all2 Q (map address (take (BATCH_SIZE w) (drop i leaves))) rs
           \<and> loadBatch w leaves i (chunks, failed, s) =
               (chunks @ loadedChunks (zip (take (BATCH_SIZE w) (drop i leaves)) rs),
                failed @ map Some (failedLeaves (zip (take (BATCH_SIZE w) (drop i leaves)) rs)), s')"
proof -
  define b where "b = take (BATCH_SIZE w) (drop i leaves)"
  obtain res s1 where f: "fetchChunksBatch w (map address b) 2 s = (res, s1)"
    by (cases "fetchChunksBatch w (map address b) 2 s")
  from batch f obtain rs where rs: "res = Some rs" "list_all2 Q (map address b) rs"
    unfolding batchGives_def by (metis fst_conv)
  then have len: "0 + length rs = length b" by (auto dest: list_all2_lengthD)
  from processResults_aligned[OF len, of chunks failed s1] obtain s2 where
    p: "processResults b rs 0 (chunks, failed, s1) =
          (False, chunks @ loadedChunks (zip b rs), failed @ map Some (failedLeaves (zip b rs)), s2)"
    by auto
  from f rs p show ?thesis
    unfolding b_def[symmetric]
    by (auto simp: loadBatch_def batch_slice b_def[symmetric] Let_def)
qed

lemma BATCH_SIZE_pos: "0 < BATCH_SIZE w"
  by (simp add: BATCH_SIZE_def split: url_param.split option.split)

lemma loadBatches_results:
  assumes batch: "batchGives w Q"
  shows "\<exists>rs s'. list_all2 Q (map address (drop i leaves)) rs
           \<and> loadBatches w leaves i (chunks, failed, s) =
               (chunks @ loadedChunks (zip (drop i leaves) rs),
                failed @ map Some (failedLeaves (zip (drop i leaves) rs)), s')"
proof (induction "length leaves - i" arbitrary: i chunks failed s rule: less_induct)
  case less
  show ?case
  proof (cases "i < length leaves")
    case False
    then show ?thesis by (subst loadBatches.simps) simp
  next
    case True
    define B where "B = BATCH_SIZE w"
    have Bpos: "0 < B" by (simp add: B_def BATCH_SIZE_pos)
    from loadBatch_results[OF batch, where i=i and leaves=leaves and chunks=chunks and failed=failed and s=s]
    obtain rs1 s1 where
      q1: "list_all2 Q (map address (take B (drop i leaves))) rs1" and
      l1: "loadBatch w leaves i (chunks, failed, s) =
            (chunks @ loadedChunks (zip (take B (drop i leaves)) rs1),
             failed @ map Some (failedLeaves (zip (take B (drop i leaves)) rs1)), s1)"
      unfolding B_def by blast
    have "length leaves - (i + B) < length leaves - i" using True Bpos by arith
    from less[OF this, of "chunks @ loadedChunks (zip (take B (drop i leaves)) rs1)"
        "failed @ map Some (failedLeaves (zip (take B (drop i leaves)) rs1))" s1]
    obtain rs2 s2 where
      q2: "list_all2 Q (map address (drop (i + B) leaves)) rs2" and
      l2: "loadBatches w leaves (i + B)
             (chunks @ loadedChunks (zip (take B (drop i leaves)) rs1),
              failed @ map Some (failedLeaves (zip (take B (drop i leaves)) rs1)), s1) =
           ((chunks @ loadedChunks (zip (take B (drop i leaves)) rs1))
              @ loadedChunks (zip (drop (i + B) leaves) rs2),
            (failed @ map Some (failedLeaves (zip (take B (drop i leaves)) rs1)))
              @ map Some (failedLeaves (zip (drop (i + B) leaves) rs2)), s2)"
      by blast
    have split: "drop i leaves = take B (drop i leaves) @ drop (i + B) leaves"
      by (metis append_take_drop_id drop_drop add.commute)
    have len1: "length (take B (drop i leaves)) = length rs1"
      using q1 by (auto dest: list_all2_lengthD)
    have z: "zip (drop i leaves) (rs1 @ rs2)
               = zip (take B (drop i leaves)) rs1 @ zip (drop (i + B) leaves) rs2"
      by (subst split) (simp only: zip_append[OF len1])
    have q: "list_all2 Q (map address (drop i leaves)) (rs1 @ rs2)"
      by (subst split) (simp only: map_append list_all2_appendI[OF q1 q2])
    have "loadBatches w leaves i (chunks, failed, s) =
            (chunks @ loadedChunks (zip (drop i leaves) (rs1 @ rs2)),
             failed @ map Some (failedLeaves (zip (drop i leaves) (rs1 @ rs2))), s2)"
      using True l1 l2 by (subst loadBatches.simps) (simp add: z B_def)
    with q show ?thesis by blast
  qed
qed

lemma loadChunksInBatches_results:
  assumes batch: "batchGives w Q"
  shows "\<exists>rs s'. list_all2 Q (map address leaves) rs
           \<and> loadChunksInBatches w leaves s =
               (loadedChunks (zip leaves rs), map Some (failedLeaves (zip leaves rs)), s')"
  using loadBatches_results[OF batch, where i=0 and leaves=leaves and chunks="[]" and failed="[]" and s=s]
  by (simp add: loadChunksInBatches_def)

subsection \<open>served\<close>

lemma fetchAttempts_served:
  "served w \<sigma> F \<Longrightarrow> 0 < retries \<Longrightarrow>
   resultOf (fst (fetchAttempts delay w a retries 0 s)) = outcome \<sigma> F a"
proof (cases "a \<in> F")
  case True
  assume "served w \<sigma> F" "0 < retries"
  with True have "fst (fetchAttempts delay w a retries 0 s) = Rejected"
    by (intro fetchAttempts_always_fail) (auto simp: served_def)
  with True show ?thesis by (simp add: resultOf_def outcome_def)
next
  case False
  assume "served w \<sigma> F" "0 < retries"
  with False have "fetchAttempts delay w a retries 0 s = (Data (\<sigma> a), afterRead a s)"
    by (intro fetchAttempts_always_ok) (auto simp: served_def)
  with False show ?thesis by (simp add: resultOf_def outcome_def)
qed

lemma individually_served:
  "served w \<sigma> F \<Longrightarrow> 0 < retries \<Longrightarrow>
   fst (individually delay w addrs retries s) = map (outcome \<sigma> F) addrs"
proof (induction addrs arbitrary: s)
  case Nil
  then show ?case by simp
next
  case (Cons a addrs)
  obtain f s1 where f: "fetchAttempts delay w a retries 0 s = (f, s1)"
    by (cases "fetchAttempts delay w a retries 0 s")
  with fetchAttempts_served[OF Cons.prems, of delay a s] have "resultOf f = outcome \<sigma> F a" by simp
  with f Cons.IH[OF Cons.prems, of s1] show ?case
    by (auto split: prod.splits)
qed

lemma batchAttempts_served:
  "served w \<sigma> F \<Longrightarrow> i < retries \<Longrightarrow>
   fst (batchAttempts delay w addrs retries i s) = Some (map (outcome \<sigma> F) addrs)"
proof (induction "retries - i" arbitrary: i s)
  case 0
  then show ?case by simp
next
  case (Suc n)
  have nx: "Suc i \<noteq> retries \<Longrightarrow> n = retries - Suc i \<and> Suc i < retries" using Suc.hyps(2) by arith
  from Suc.prems have r0: "0 < retries" by arith
  show ?case
  proof (cases "aggregate3 w (aggs s) addrs")
    case None
    show ?thesis
    proof (cases "Suc i = retries")
      case True
      with None Suc.prems individually_served[OF Suc.prems(1) r0, of delay addrs "snd (readAggregate3 w addrs s)"]
      show ?thesis
        by (auto simp: batchAttempts_step split: prod.splits)
    next
      case False
      with None Suc.prems Suc.hyps(1)[of "Suc i"] nx show ?thesis
        by (simp add: batchAttempts_step)
    qed
  next
    case (Some slots)
    with Suc.prems show ?thesis
      by (auto simp: batchAttempts_step served_def)
  qed
qed

lemma fetchChunksBatch_served:
  "served w \<sigma> F \<Longrightarrow> 0 < retries \<Longrightarrow>
   fst (fetchChunksBatch w addrs retries s) = Some (map (outcome \<sigma> F) addrs)"
  using individually_served[of w \<sigma> F retries loaderDelay addrs s]
    batchAttempts_served[of w \<sigma> F 0 retries loaderDelay addrs s]
  by (auto simp: fetchChunksBatch_def batchOrIndividually_def split: prod.splits)

subsection \<open>Retry rounds\<close>

lemma fetchGives_not_NoValue: "fetchGives w a f \<Longrightarrow> f \<noteq> NoValue"
  using fetchAttempts_not_NoValue[of 0 3 loaderDelay w a]
  by (auto simp: fetchGives_def fetchChunkData_def) (metis fst_conv)

lemma fetchGives_always_fail: "\<forall>n. readPage w a n = None \<Longrightarrow> fetchGives w a f \<Longrightarrow> f = Rejected"
  using fetchAttempts_always_fail[of w a 0 3 loaderDelay]
  by (auto simp: fetchGives_def fetchChunkData_def) (metis fst_conv)

lemma fetchGives_consistent: "consistent w \<sigma> \<Longrightarrow> fetchGives w a (Data d) \<Longrightarrow> d = \<sigma> a"
  by (auto simp: fetchGives_def fetchChunkData_def dest: fetchAttempts_consistent)

lemma retriedChunks_simps [simp]:
  "retriedChunks [] = []"
  "retriedChunks ((lf, Data d) # pfs) = \<lparr>chunk_index = index lf, chunk_data = Some d\<rparr> # retriedChunks pfs"
  "retriedChunks ((lf, NoValue) # pfs) = \<lparr>chunk_index = index lf, chunk_data = None\<rparr> # retriedChunks pfs"
  "retriedChunks ((lf, Rejected) # pfs) = retriedChunks pfs"
  by (simp_all add: retriedChunks_def)

lemma stillFailing_simps [simp]:
  "stillFailing [] = []"
  "stillFailing ((lf, Data d) # pfs) = stillFailing pfs"
  "stillFailing ((lf, NoValue) # pfs) = lf # stillFailing pfs"
  "stillFailing ((lf, Rejected) # pfs) = lf # stillFailing pfs"
  by (simp_all add: stillFailing_def isData_def)

lemma retryLeaves_results:
  "\<exists>fs s'. list_all2 (\<lambda>lf f. fetchGives w (address lf) f) lfs fs
     \<and> retryLeaves w (map Some lfs) (stillFailed, chunks, s) =
         (None, stillFailed @ map Some (stillFailing (zip lfs fs)),
          chunks @ retriedChunks (zip lfs fs), s')"
proof (induction lfs arbitrary: stillFailed chunks s)
  case Nil
  then show ?case by simp
next
  case (Cons lf lfs)
  obtain f s1 where f: "fetchChunkData w (address lf) 3 s = (f, s1)"
    by (cases "fetchChunkData w (address lf) 3 s")
  then have g: "fetchGives w (address lf) f" by (auto simp: fetchGives_def)
  show ?case
  proof (cases f)
    case (Data d)
    from Cons.IH[of stillFailed "chunks @ [\<lparr>chunk_index = index lf, chunk_data = Some d\<rparr>]" "sleep 100 s1"]
    obtain fs s' where
      "list_all2 (\<lambda>lf f. fetchGives w (address lf) f) lfs fs"
      "retryLeaves w (map Some lfs)
         (stillFailed, chunks @ [\<lparr>chunk_index = index lf, chunk_data = Some d\<rparr>], sleep 100 s1) =
       (None, stillFailed @ map Some (stillFailing (zip lfs fs)),
        (chunks @ [\<lparr>chunk_index = index lf, chunk_data = Some d\<rparr>]) @ retriedChunks (zip lfs fs), s')"
      by blast
    with f g Data show ?thesis
      by (intro exI[of _ "f # fs"] exI[of _ s']) simp
  next
    case Rejected
    from Cons.IH[of "stillFailed @ [Some lf]" chunks "sleep 100 s1"]
    obtain fs s' where
      "list_all2 (\<lambda>lf f. fetchGives w (address lf) f) lfs fs"
      "retryLeaves w (map Some lfs) (stillFailed @ [Some lf], chunks, sleep 100 s1) =
       (None, (stillFailed @ [Some lf]) @ map Some (stillFailing (zip lfs fs)),
        chunks @ retriedChunks (zip lfs fs), s')"
      by blast
    with f g Rejected show ?thesis
      by (intro exI[of _ "f # fs"] exI[of _ s']) simp
  next
    case NoValue
    with g fetchGives_not_NoValue show ?thesis by blast
  qed
qed

text \<open>One round, as lists.\<close>

lemma round_partition:
  "list_all2 (\<lambda>lf f. fetchGives w (address lf) f) lfs fs \<Longrightarrow>
   mset (map index (stillFailing (zip lfs fs))) + mset (map chunk_index (retriedChunks (zip lfs fs)))
     = mset (map index lfs)
   \<and> mset (stillFailing (zip lfs fs)) \<subseteq># mset lfs
   \<and> (\<forall>c\<in>set (retriedChunks (zip lfs fs)). \<exists>d. chunk_data c = Some d)"
proof (induction rule: list_all2_induct)
  case Nil
  then show ?case by simp
next
  case (Cons lf lfs f fs)
  then show ?case
    by (cases f) (auto dest: fetchGives_not_NoValue intro: subset_mset.order_trans)
qed

lemma round_keeps_failing:
  "list_all2 (\<lambda>lf f. fetchGives w (address lf) f) lfs fs \<Longrightarrow> lf \<in> set lfs \<Longrightarrow>
   \<forall>f. fetchGives w (address lf) f \<longrightarrow> \<not> isData f \<Longrightarrow> lf \<in> set (stillFailing (zip lfs fs))"
proof (induction rule: list_all2_induct)
  case Nil
  then show ?case by simp
next
  case (Cons l lfs f fs)
  then show ?case
    by (cases f) (auto simp: isData_def)
qed

lemma retryRounds_step:
  "toRetry \<noteq> [] \<Longrightarrow> retryRound < 5 \<Longrightarrow>
   retryRounds w retryRound toRetry chunks s =
     (case retryLeaves w toRetry
             ([], chunks,
              sleep (500 * (retryRound + 1)) (log (RetryRound (retryRound + 1) (length toRetry)) s)) of
        (None, stillFailed, chunks', s') \<Rightarrow> retryRounds w (retryRound + 1) stillFailed chunks' s'
      | (Some e, stillFailed, chunks', s') \<Rightarrow> (Some e, retryRound + 1, toRetry, chunks', s'))"
  by (subst retryRounds.simps) simp

lemma retryRounds_stop:
  "toRetry = [] \<or> \<not> retryRound < 5 \<Longrightarrow>
   retryRounds w retryRound toRetry chunks s = (None, retryRound, toRetry, chunks, s)"
  by (subst retryRounds.simps) auto

lemma retryRounds_results:
  "r \<le> 5 \<Longrightarrow>
   \<exists>R lfs' cs s'.
     retryRounds w r (map Some lfs) chunks s = (None, R, map Some lfs', chunks @ cs, s')
     \<and> r \<le> R \<and> R \<le> 5 \<and> (lfs' \<noteq> [] \<longrightarrow> R = 5)
     \<and> mset (map index lfs') + mset (map chunk_index cs) = mset (map index lfs)
     \<and> mset lfs' \<subseteq># mset lfs
     \<and> (\<forall>c\<in>set cs. \<exists>d. chunk_data c = Some d)
     \<and> (\<forall>lf\<in>set lfs. (\<forall>f. fetchGives w (address lf) f \<longrightarrow> \<not> isData f) \<longrightarrow> lf \<in> set lfs')"
proof (induction "5 - r" arbitrary: r lfs chunks s)
  case 0
  then have "r = 5" by simp
  then show ?case
    by (intro exI[of _ r] exI[of _ lfs] exI[of _ "[]"] exI[of _ s]) (simp add: retryRounds_stop)
next
  case (Suc n)
  then have r: "r < 5" and n: "n = 5 - Suc r" and r': "Suc r \<le> 5" by arith+
  show ?case
  proof (cases "lfs = []")
    case True
    then show ?thesis
      by (intro exI[of _ r] exI[of _ lfs] exI[of _ "[]"] exI[of _ s]) (simp add: retryRounds_stop Suc.prems)
  next
    case False
    define s0 where "s0 = sleep (500 * (r + 1)) (log (RetryRound (r + 1) (length (map Some lfs))) s)"
    from retryLeaves_results[of w lfs "[]" chunks s0] obtain fs s1 where
      fs: "list_all2 (\<lambda>lf f. fetchGives w (address lf) f) lfs fs" and
      rl: "retryLeaves w (map Some lfs) ([], chunks, s0) =
             (None, map Some (stillFailing (zip lfs fs)), chunks @ retriedChunks (zip lfs fs), s1)"
      by auto
    from Suc.hyps(1)[OF n r', of "stillFailing (zip lfs fs)" "chunks @ retriedChunks (zip lfs fs)" s1]
    obtain R lfs' cs s' where
      rr: "retryRounds w (Suc r) (map Some (stillFailing (zip lfs fs)))
             (chunks @ retriedChunks (zip lfs fs)) s1 =
           (None, R, map Some lfs', (chunks @ retriedChunks (zip lfs fs)) @ cs, s')" and
      b: "Suc r \<le> R" "R \<le> 5" "lfs' \<noteq> [] \<longrightarrow> R = 5" and
      m: "mset (map index lfs') + mset (map chunk_index cs) = mset (map index (stillFailing (zip lfs fs)))" and
      sub: "mset lfs' \<subseteq># mset (stillFailing (zip lfs fs))" and
      dat: "\<forall>c\<in>set cs. \<exists>d. chunk_data c = Some d" and
      keep: "\<forall>lf\<in>set (stillFailing (zip lfs fs)).
               (\<forall>f. fetchGives w (address lf) f \<longrightarrow> \<not> isData f) \<longrightarrow> lf \<in> set lfs'"
      by blast
    from round_partition[OF fs] have
      p1: "mset (map index (stillFailing (zip lfs fs))) + mset (map chunk_index (retriedChunks (zip lfs fs)))
             = mset (map index lfs)" and
      p2: "mset (stillFailing (zip lfs fs)) \<subseteq># mset lfs" and
      p3: "\<forall>c\<in>set (retriedChunks (zip lfs fs)). \<exists>d. chunk_data c = Some d"
      by auto
    have run: "retryRounds w r (map Some lfs) chunks s =
                 (None, R, map Some lfs', chunks @ (retriedChunks (zip lfs fs) @ cs), s')"
      using False r rl rr by (simp add: retryRounds_step s0_def)
    have m': "mset (map index lfs') + mset (map chunk_index (retriedChunks (zip lfs fs) @ cs))
               = mset (map index lfs)"
      using p1 unfolding m[symmetric] by (simp add: ac_simps)
    have k': "\<forall>lf\<in>set lfs. (\<forall>f. fetchGives w (address lf) f \<longrightarrow> \<not> isData f) \<longrightarrow> lf \<in> set lfs'"
      using keep round_keeps_failing[OF fs] by blast
    show ?thesis
      apply (intro exI[of _ R] exI[of _ lfs'] exI[of _ "retriedChunks (zip lfs fs) @ cs"] exI[of _ s'])
      using run b m' k' dat p3 sub p2 by (auto intro: subset_mset.order_trans)
  qed
qed

subsection \<open>Assembly\<close>

lemma totalLength_Some:
  "\<forall>c\<in>set cs. \<exists>d. chunk_data c = Some d \<Longrightarrow>
   totalLength cs = Some (length (concat (map chunkBytes cs)))"
  by (induction cs) (auto simp: chunkBytes_def)

lemma copyChunks_concat:
  "\<forall>c\<in>set cs. \<exists>d. chunk_data c = Some d \<Longrightarrow>
   length zs = length (concat (map chunkBytes cs)) \<Longrightarrow>
   copyChunks cs (pre @ zs) (length pre) = Some (pre @ concat (map chunkBytes cs))"
proof (induction cs arbitrary: pre zs)
  case Nil
  then show ?case by simp
next
  case (Cons c cs)
  then obtain d where d: "chunk_data c = Some d" by auto
  then have cb: "chunkBytes c = d" by (simp add: chunkBytes_def)
  from Cons.prems(2) cb have len: "length zs = length d + length (concat (map chunkBytes cs))"
    by simp
  then have ts: "typedSet (pre @ zs) d (length pre) = Some ((pre @ d) @ drop (length d) zs)"
    by (simp add: typedSet_def)
  from len have l2: "length (drop (length d) zs) = length (concat (map chunkBytes cs))" by simp
  from Cons.IH[of "drop (length d) zs" "pre @ d"] Cons.prems(1) l2
  have "copyChunks cs ((pre @ d) @ drop (length d) zs) (length (pre @ d))
          = Some ((pre @ d) @ concat (map chunkBytes cs))" by simp
  with d ts cb show ?case by simp
qed

lemma assemble_concat:
  "\<forall>c\<in>set cs. \<exists>d. chunk_data c = Some d \<Longrightarrow> assemble cs = Some (concat (map chunkBytes cs))"
  using copyChunks_concat[of cs "replicate (length (concat (map chunkBytes cs))) 0" "[]"]
  by (simp add: assemble_def totalLength_Some)

lemma loadedChunks_data:
  "\<forall>c\<in>set (loadedChunks prs). \<exists>d. chunk_data c = Some d"
  by (induction prs) (auto simp: okResult_def split: if_splits)

lemma loaded_failed_partition:
  "mset (map chunk_index (loadedChunks prs)) + mset (map index (failedLeaves prs))
     = mset (map (index \<circ> fst) prs)"
  by (induction prs) auto

subsection \<open>The whole load\<close>

lemma batchGives_aligned: "aligned w \<Longrightarrow> batchGives w (\<lambda>a r. True)"
  unfolding batchGives_def
proof (intro allI)
  fix addrs s
  assume a: "aligned w"
  obtain res s' where f: "fetchChunksBatch w addrs 2 s = (res, s')"
    by (cases "fetchChunksBatch w addrs 2 s")
  from fetchChunksBatch_aligned[OF a _ f] obtain rs where "res = Some rs" "length rs = length addrs"
    by auto
  with f show "\<exists>rs. fst (fetchChunksBatch w addrs 2 s) = Some rs \<and> list_all2 (\<lambda>a r. True) addrs rs"
    by (auto simp: list_all2_conv_all_nth)
qed

lemma retryFailedChunks_results:
  "\<exists>cs s'. retryFailedChunks w (map Some lfs) chunks s = (None, chunks @ cs, s')
     \<and> (\<forall>c\<in>set cs. \<exists>d. chunk_data c = Some d)
     \<and> mset (map chunk_index cs) \<subseteq># mset (map index lfs)"
proof (cases "lfs = []")
  case True
  then show ?thesis by (simp add: retryFailedChunks_def)
next
  case False
  from retryRounds_results[of 0 w lfs chunks s] obtain R lfs' cs s' where
    r: "retryRounds w 0 (map Some lfs) chunks s = (None, R, map Some lfs', chunks @ cs, s')" and
    m: "mset (map index lfs') + mset (map chunk_index cs) = mset (map index lfs)" and
    d: "\<forall>c\<in>set cs. \<exists>d. chunk_data c = Some d"
    by auto
  from m have "mset (map chunk_index cs) \<subseteq># mset (map index lfs)"
    by (metis mset_subset_eq_add_right)
  with r d False show ?thesis
    by (auto simp: retryFailedChunks_def)
qed

lemma load_returns:
  assumes "aligned w"
  shows "\<exists>chunks s'.
    (case loadChunksInBatches w leaves s of (chunks0, failed, s2) \<Rightarrow>
       if failed \<noteq> [] then retryFailedChunks w failed chunks0 (log (LoadedFailed (length chunks0) (length failed)) s2)
       else (None, chunks0, log (LoadedFailed (length chunks0) (length failed)) s2))
     = (None, chunks, s')
    \<and> (\<forall>c\<in>set chunks. \<exists>d. chunk_data c = Some d)
    \<and> mset (map chunk_index chunks) \<subseteq># mset (map index leaves)"
proof -
  from loadChunksInBatches_results[OF batchGives_aligned[OF assms], of leaves s]
  obtain rs s2 where
    len: "list_all2 (\<lambda>a r. True) (map address leaves) rs" and
    l: "loadChunksInBatches w leaves s =
          (loadedChunks (zip leaves rs), map Some (failedLeaves (zip leaves rs)), s2)"
    by blast
  from len have ll: "length rs = length leaves" by (auto dest: list_all2_lengthD)
  define c0 where "c0 = loadedChunks (zip leaves rs)"
  define f0 where "f0 = failedLeaves (zip leaves rs)"
  have part: "mset (map chunk_index c0) + mset (map index f0) = mset (map index leaves)"
    using loaded_failed_partition[of "zip leaves rs"] ll
    by (simp add: c0_def f0_def map_fst_zip flip: map_map)
  have d0: "\<forall>c\<in>set c0. \<exists>d. chunk_data c = Some d"
    unfolding c0_def by (rule loadedChunks_data)
  from retryFailedChunks_results[of w f0 c0 "log (LoadedFailed (length c0) (length (map Some f0))) s2"]
  obtain cs s' where
    r: "retryFailedChunks w (map Some f0) c0 (log (LoadedFailed (length c0) (length (map Some f0))) s2)
          = (None, c0 @ cs, s')" and
    d: "\<forall>c\<in>set cs. \<exists>d. chunk_data c = Some d" and
    m: "mset (map chunk_index cs) \<subseteq># mset (map index f0)"
    by blast
  show ?thesis
  proof (cases "f0 = []")
    case True
    with l d0 part show ?thesis
      by (intro exI[of _ c0]) (auto simp: c0_def[symmetric] f0_def[symmetric])
  next
    case False
    have "mset (map chunk_index (c0 @ cs)) \<subseteq># mset (map index leaves)"
      using m part by (metis map_append mset_append subset_mset.add_left_mono)
    with False l r d d0 show ?thesis
      by (intro exI[of _ "c0 @ cs"]) (auto simp: c0_def[symmetric] f0_def[symmetric])
  qed
qed

lemma newEvents_append: "trace s' = trace s @ evs \<Longrightarrow> newEvents s s' = evs"
  by (simp add: newEvents_def)

lemma fetchChunkData_events:
  "fetchChunkData w b retries s = (f, s') \<Longrightarrow>
   \<exists>evs. trace s' = trace s @ evs \<and> (\<forall>e\<in>set evs. e = ReadCall b \<or> (\<exists>ms. e = Sleep ms))"
  unfolding fetchChunkData_def by (drule fetchAttempts_frame) blast

lemma traverse_never_reads_dead_page:
  "\<forall>n. readPage w a n = None \<Longrightarrow> traverseNode w b d sc = (None, sc') \<Longrightarrow>
     \<exists>evs. trace (snd (snd sc')) = trace (snd (snd sc)) @ evs \<and> ReadCall a \<notin> set evs"
  "\<forall>n. readPage w a n = None \<Longrightarrow> traverseChildren w cs d sc = (None, sc') \<Longrightarrow>
     \<exists>evs. trace (snd (snd sc')) = trace (snd (snd sc)) @ evs \<and> ReadCall a \<notin> set evs"
proof (induction w b d sc and w cs d sc arbitrary: sc' and sc' rule: traverseNode_traverseChildren.induct)
  case (1 w b leaves currentIndex s)
  then show ?case by auto
next
  case (2 w b d leaves currentIndex s)
  obtain f s1 where f: "fetchChunkData w b 3 s = (f, s1)" by (cases "fetchChunkData w b 3 s")
  with "2.prems"(2) obtain bs where bs: "f = Data bs"
    by (cases f) (auto split: prod.splits option.splits)
  have ne: "b \<noteq> a"
  proof
    assume "b = a"
    with "2.prems"(1) f have "f = Rejected"
      using fetchAttempts_always_fail[of w a 0 3 loaderDelay s]
      by (simp add: fetchChunkData_def)
    with bs show False by simp
  qed
  from fetchChunkData_events[OF f] obtain evs1 where
    e1: "trace s1 = trace s @ evs1" "\<forall>e\<in>set evs1. e = ReadCall b \<or> (\<exists>ms. e = Sleep ms)" by blast
  with ne have n1: "ReadCall a \<notin> set evs1" by auto
  from f bs "2.prems"(2)
  have t: "traverseChildren w (childAddrs bs) d (leaves, currentIndex, s1) = (None, sc')"
    by (auto split: prod.splits option.splits)
  from "2.IH"[OF f[symmetric] bs "2.prems"(1) t] obtain evs2 where
    "trace (snd (snd sc')) = trace s1 @ evs2" "ReadCall a \<notin> set evs2" by auto
  with e1 n1 show ?case by auto
next
  case (3 w d sc)
  then show ?case by auto
next
  case (4 w c cs d sc)
  obtain e sc1 where r: "traverseNode w c d sc = (e, sc1)" by (cases "traverseNode w c d sc")
  with "4.prems"(2) have e: "e = None" and rest: "traverseChildren w cs d sc1 = (None, sc')"
    by (auto split: option.splits)
  from "4.IH"(1)[OF "4.prems"(1)] r e obtain evs1 where
    a: "trace (snd (snd sc1)) = trace (snd (snd sc)) @ evs1" "ReadCall a \<notin> set evs1" by auto
  from "4.IH"(2)[OF r[symmetric] _ "4.prems"(1) rest] e obtain evs2 where
    b: "trace (snd (snd sc')) = trace (snd (snd sc1)) @ evs2" "ReadCall a \<notin> set evs2" by auto
  from a b show ?case by auto
qed

lemma traverse_error_kind:
  "fst (traverseNode w b d sc) \<noteq> Some TypeError"
  "fst (traverseChildren w cs d sc) \<noteq> Some TypeError"
proof (induction w b d sc and w cs d sc rule: traverseNode_traverseChildren.induct)
  case (1 w b leaves currentIndex s)
  then show ?case by simp
next
  case (2 w b d leaves currentIndex s)
  obtain f s1 where f: "fetchChunkData w b 3 s = (f, s1)" by (cases "fetchChunkData w b 3 s")
  then have nv: "f \<noteq> NoValue"
    using fetchAttempts_not_NoValue[of 0 3 loaderDelay w b s] by (auto simp: fetchChunkData_def)
  show ?case
  proof (cases f)
    case (Data bs)
    with "2.IH"[OF f[symmetric] Data] f show ?thesis
      by (auto split: prod.splits option.splits)
  next
    case Rejected
    with f show ?thesis by simp
  next
    case NoValue
    with nv show ?thesis by simp
  qed
next
  case (3 w d sc)
  then show ?case by simp
next
  case (4 w c cs d sc)
  obtain e sc1 where r: "traverseNode w c d sc = (e, sc1)" by (cases "traverseNode w c d sc")
  with "4.IH"(1) have "e \<noteq> Some TypeError" by simp
  with "4.IH"(2)[OF r[symmetric]] r show ?case
    by (cases e) auto
qed

lemma fetchTreeSequential_returns:
  assumes "aligned w" and "collectLeafAddresses w rootChunk depth s = (Inr leaves, s1)"
  shows "\<exists>finalData s'. fetchTreeSequential w rootChunk depth s = (Inr finalData, s')"
proof -
  from load_returns[OF assms(1), of leaves "log (FoundLeaves (length leaves)) s1"]
  obtain chunks s' where
    r: "(case loadChunksInBatches w leaves (log (FoundLeaves (length leaves)) s1) of
          (chunks0, failed, s2) \<Rightarrow>
            if failed \<noteq> [] then retryFailedChunks w failed chunks0
                 (log (LoadedFailed (length chunks0) (length failed)) s2)
            else (None, chunks0, log (LoadedFailed (length chunks0) (length failed)) s2))
         = (None, chunks, s')" and
    d: "\<forall>c\<in>set chunks. \<exists>d. chunk_data c = Some d"
    by blast
  from d have "\<forall>c\<in>set (sort_key chunk_index chunks). \<exists>d. chunk_data c = Some d" by simp
  from assemble_concat[OF this] obtain finalData where
    a: "assemble (sort_key chunk_index chunks) = Some finalData" by blast
  from assms(2) r a show ?thesis
    by (auto simp: fetchTreeSequential_def split: prod.splits)
qed

subsection \<open>The aggregate attempts\<close>

lemma failedAttempts_0 [simp]: "failedAttempts addrs i 0 = []"
  by (simp add: failedAttempts_def)

lemma failedAttempts_Suc:
  "failedAttempts addrs i (Suc k) =
     [AggregateCall addrs, Sleep (min (300 * 2 ^ i) 3000)] @ failedAttempts addrs (Suc i) k"
proof -
  have "[i..<i + Suc k] = i # [Suc i..<Suc i + k]"
    by (simp add: upt_conv_Cons del: upt_Suc)
  then show ?thesis
    by (simp add: failedAttempts_def del: upt_Suc)
qed

lemma batchAttempts_failing:
  "\<forall>j<k. aggregate3 w (aggs s + j) addrs = None \<Longrightarrow> i + k < retries \<Longrightarrow>
   batchAttempts delay w addrs retries i s =
     batchAttempts delay w addrs retries (i + k)
       (s\<lparr>aggs := aggs s + k, trace := trace s @ failedAttempts addrs i k\<rparr>)"
proof (induction k arbitrary: i s)
  case 0
  then show ?case by simp
next
  case (Suc k)
  from Suc.prems(1) have a0: "aggregate3 w (aggs s) addrs = None" by (metis add.right_neutral zero_less_Suc)
  define s1 where "s1 = sleep (min (300 * 2 ^ i) 3000) (snd (readAggregate3 w addrs s))"
  have s1: "aggs s1 = Suc (aggs s)"
    "trace s1 = trace s @ [AggregateCall addrs, Sleep (min (300 * 2 ^ i) 3000)]"
    "reads s1 = reads s"
    by (simp_all add: s1_def sleep_def readAggregate3_def)
  from Suc.prems have lt: "i < retries" "Suc i \<noteq> retries" "Suc i + k < retries" by arith+
  have "\<forall>j<k. aggregate3 w (aggs s1 + j) addrs = None"
    using Suc.prems(1) s1(1) by auto
  from Suc.IH[OF this lt(3)]
  have "batchAttempts delay w addrs retries (Suc i) s1 =
          batchAttempts delay w addrs retries (Suc i + k)
            (s1\<lparr>aggs := aggs s1 + k, trace := trace s1 @ failedAttempts addrs (Suc i) k\<rparr>)" .
  moreover have "s1\<lparr>aggs := aggs s1 + k, trace := trace s1 @ failedAttempts addrs (Suc i) k\<rparr>
       = s\<lparr>aggs := aggs s + Suc k, trace := trace s @ failedAttempts addrs i (Suc k)\<rparr>"
    by (simp add: s1_def sleep_def readAggregate3_def failedAttempts_Suc)
  ultimately show ?case
    using a0 lt by (simp add: batchAttempts_step[OF lt(1)] s1_def)
qed

lemma batchAttempts_success_after:
  assumes "\<forall>j<k. aggregate3 w (aggs s + j) addrs = None"
    and "aggregate3 w (aggs s + k) addrs = Some slots" and "k < retries"
  shows "batchAttempts delay w addrs retries 0 s =
     (Some (map (parseResult w) slots),
      s\<lparr>aggs := aggs s + k + 1, trace := trace s @ failedAttempts addrs 0 k @ [AggregateCall addrs]\<rparr>)"
proof -
  from batchAttempts_failing[OF assms(1), of 0 retries delay] assms(3)
  have "batchAttempts delay w addrs retries 0 s =
     batchAttempts delay w addrs retries k
       (s\<lparr>aggs := aggs s + k, trace := trace s @ failedAttempts addrs 0 k\<rparr>)" by simp
  also have "\<dots> = (Some (map (parseResult w) slots),
      s\<lparr>aggs := aggs s + k + 1, trace := trace s @ failedAttempts addrs 0 k @ [AggregateCall addrs]\<rparr>)"
    using assms(2,3) by (simp add: batchAttempts_step readAggregate3_def)
  finally show ?thesis .
qed

lemma batchAttempts_exhausted:
  assumes "\<forall>j<retries. aggregate3 w (aggs s + j) addrs = None" and "0 < retries"
  shows "batchAttempts delay w addrs retries 0 s =
     (case individually delay w addrs retries
             (s\<lparr>aggs := aggs s + retries,
                trace := trace s @ failedAttempts addrs 0 (retries - 1) @ [AggregateCall addrs]\<rparr>) of
        (results, s2) \<Rightarrow> (Some results, s2))"
proof -
  from assms have p: "\<forall>j<retries - 1. aggregate3 w (aggs s + j) addrs = None" by auto
  from batchAttempts_failing[OF p, of 0 retries delay] assms(2)
  have "batchAttempts delay w addrs retries 0 s =
     batchAttempts delay w addrs retries (retries - 1)
       (s\<lparr>aggs := aggs s + (retries - 1), trace := trace s @ failedAttempts addrs 0 (retries - 1)\<rparr>)"
    by simp
  also have "\<dots> = (case individually delay w addrs retries
             (s\<lparr>aggs := aggs s + retries,
                trace := trace s @ failedAttempts addrs 0 (retries - 1) @ [AggregateCall addrs]\<rparr>) of
        (results, s2) \<Rightarrow> (Some results, s2))"
  proof -
    obtain m where m: "retries = Suc m" using assms(2) by (cases retries) auto
    with assms(1) have "aggregate3 w (aggs s + m) addrs = None" by simp
    with m show ?thesis
      by (simp add: batchAttempts_step readAggregate3_def)
  qed
  finally show ?thesis .
qed

subsection \<open>Counting aggregate calls\<close>

lemma individually_events:
  "individually delay w addrs retries s = (rs, s') \<Longrightarrow>
   aggs s' = aggs s \<and> (\<exists>evs. trace s' = trace s @ evs \<and> (\<forall>e\<in>set evs. \<not> isAggregateCall e))"
proof (induction addrs arbitrary: rs s s')
  case Nil
  then show ?case by simp
next
  case (Cons a addrs)
  obtain f s1 where f: "fetchAttempts delay w a retries 0 s = (f, s1)"
    by (cases "fetchAttempts delay w a retries 0 s")
  obtain rs1 s2 where r: "individually delay w addrs retries s1 = (rs1, s2)"
    by (cases "individually delay w addrs retries s1")
  from fetchAttempts_frame[OF f] obtain evs1 where
    e1: "aggs s1 = aggs s" "trace s1 = trace s @ evs1" "\<forall>e\<in>set evs1. e = ReadCall a \<or> (\<exists>ms. e = Sleep ms)"
    by blast
  from Cons.IH[OF r] obtain evs2 where
    e2: "aggs s2 = aggs s1" "trace s2 = trace s1 @ evs2" "\<forall>e\<in>set evs2. \<not> isAggregateCall e"
    by blast
  from e1(3) have "\<forall>e\<in>set evs1. \<not> isAggregateCall e" by (auto simp: isAggregateCall_def)
  with Cons.prems f r e1 e2 show ?case by auto
qed

lemma processResults_events:
  "processResults batch rs idx (chunks, failed, s) = (b, chunks', failed', s') \<Longrightarrow>
   \<exists>evs. trace s' = trace s @ evs \<and> (\<forall>e\<in>set evs. \<not> isAggregateCall e)"
proof (induction rs arbitrary: idx chunks failed s)
  case Nil
  then show ?case by simp
next
  case (Cons r rs)
  show ?case
  proof (cases "idx < length batch")
    case False
    with Cons.prems show ?thesis by (auto split: if_splits)
  next
    case True
    show ?thesis
    proof (cases "success r \<and> data r \<noteq> None")
      case ok: True
      with True Cons.prems Cons.IH show ?thesis by auto
    next
      case False
      with True Cons.prems have
        "processResults batch rs (Suc idx)
           (chunks, failed @ [Some (batch ! idx)], log (ChunkFailed (index (batch ! idx))) s)
         = (b, chunks', failed', s')" by auto
      from Cons.IH[OF this] obtain evs where
        "trace s' = trace (log (ChunkFailed (index (batch ! idx))) s) @ evs"
        "\<forall>e\<in>set evs. \<not> isAggregateCall e" by blast
      then show ?thesis
        by (intro exI[of _ "Log (ChunkFailed (index (batch ! idx))) # evs"])
           (simp add: log_def isAggregateCall_def)
    qed
  qed
qed

lemma fetchChunksBatch_2_calls:
  "fetchChunksBatch w addrs 2 s = (res, s') \<Longrightarrow>
   \<exists>evs. trace s' = trace s @ evs \<and> length (filter isAggregateCall evs) \<le> 2"
proof -
  assume run: "fetchChunksBatch w addrs 2 s = (res, s')"
  have none: "\<And>evs. \<forall>e\<in>set evs. \<not> isAggregateCall e \<Longrightarrow> filter isAggregateCall evs = []"
    by (simp add: filter_empty_conv)
  show ?thesis
  proof (cases "\<not> USE_MULTICALL w \<or> addrs = []")
    case True
    with run obtain rs where "individually loaderDelay w addrs 2 s = (rs, s')"
      by (auto simp: fetchChunksBatch_def batchOrIndividually_def split: prod.splits)
    from individually_events[OF this] none show ?thesis by (metis list.size(3) zero_le)
  next
    case False
    with run have b: "batchAttempts loaderDelay w addrs 2 0 s = (res, s')"
      by (auto simp: fetchChunksBatch_def batchOrIndividually_def)
    show ?thesis
    proof (cases "aggregate3 w (aggs s) addrs")
      case (Some slots)
      with b show ?thesis
        by (auto simp: batchAttempts_step readAggregate3_def isAggregateCall_def)
    next
      case None
      note n0 = None
      show ?thesis
      proof (cases "aggregate3 w (Suc (aggs s)) addrs")
        case (Some slots)
        with n0 b show ?thesis
          by (auto simp: batchAttempts_step readAggregate3_def isAggregateCall_def sleep_def numeral_2_eq_2)
      next
        case None
        define s1 where "s1 = s\<lparr>aggs := Suc (Suc (aggs s)),
           trace := trace s @ [AggregateCall addrs, Sleep 300, AggregateCall addrs]\<rparr>"
        from n0 None b obtain rs where i: "individually loaderDelay w addrs 2 s1 = (rs, s')"
          by (auto simp: batchAttempts_step readAggregate3_def sleep_def numeral_2_eq_2 s1_def
              split: prod.splits)
        from individually_events[OF i] obtain evs where
          "trace s' = trace s1 @ evs" "\<forall>e\<in>set evs. \<not> isAggregateCall e" by blast
        with none[of evs] show ?thesis
          by (intro exI[of _ "[AggregateCall addrs, Sleep 300, AggregateCall addrs] @ evs"])
             (simp add: s1_def isAggregateCall_def)
      qed
    qed
  qed
qed

lemma loadBatch_calls:
  "loadBatch w leaves i (chunks, failed, s) = (chunks', failed', s') \<Longrightarrow>
   \<exists>evs. trace s' = trace s @ evs \<and> length (filter isAggregateCall evs) \<le> 2"
proof -
  assume run: "loadBatch w leaves i (chunks, failed, s) = (chunks', failed', s')"
  define b where "b = take (min (i + BATCH_SIZE w) (length leaves) - i) (drop i leaves)"
  obtain res s1 where f: "fetchChunksBatch w (map address b) 2 s = (res, s1)"
    by (cases "fetchChunksBatch w (map address b) 2 s")
  from fetchChunksBatch_2_calls[OF f] obtain evs1 where
    e1: "trace s1 = trace s @ evs1" "length (filter isAggregateCall evs1) \<le> 2" by blast
  have "\<exists>evs2. trace s' = trace s1 @ evs2 \<and> (\<forall>e\<in>set evs2. \<not> isAggregateCall e)"
  proof (cases res)
    case None
    with run f show ?thesis
      by (auto simp: loadBatch_def b_def[symmetric] Let_def log_def sleep_def isAggregateCall_def
          split: if_splits)
  next
    case (Some rs)
    obtain fl c1 f1 s2 where p: "processResults b rs 0 (chunks, failed, s1) = (fl, c1, f1, s2)"
      by (cases "processResults b rs 0 (chunks, failed, s1)") auto
    from processResults_events[OF p] obtain evs where
      ev: "trace s2 = trace s1 @ evs" "\<forall>e\<in>set evs. \<not> isAggregateCall e" by blast
    from run f Some p ev show ?thesis
      by (cases fl)
         (auto simp: loadBatch_def b_def[symmetric] Let_def log_def sleep_def isAggregateCall_def
          split: if_splits)
  qed
  then obtain evs2 where "trace s' = trace s1 @ evs2" "\<forall>e\<in>set evs2. \<not> isAggregateCall e" by blast
  with e1 show ?thesis
    by (intro exI[of _ "evs1 @ evs2"]) (simp add: filter_empty_conv[THEN iffD2])
qed

subsection \<open>Networks with a fixed set of unreachable pages\<close>

lemma served_consistent: "served w \<sigma> F \<Longrightarrow> consistent w \<sigma>"
  by (simp add: served_def consistent_def)

lemma batchGives_served: "served w \<sigma> F \<Longrightarrow> batchGives w (\<lambda>a r. r = outcome \<sigma> F a)"
  using fetchChunksBatch_served[of w \<sigma> F 2]
  by (simp add: batchGives_def list_all2_conv_all_nth)

lemma list_all2_eq_map: "list_all2 (\<lambda>a r. r = f a) xs rs \<Longrightarrow> rs = map f xs"
  by (induction rule: list_all2_induct) auto

lemma loadedChunks_outcome:
  "loadedChunks (zip leaves (map (outcome \<sigma> F) (map address leaves)))
     = map (\<lambda>lf. \<lparr>chunk_index = index lf, chunk_data = Some (\<sigma> (address lf))\<rparr>)
         (filter (\<lambda>lf. address lf \<notin> F) leaves)"
  by (induction leaves) (auto simp: outcome_def okResult_def)

lemma failedLeaves_outcome:
  "failedLeaves (zip leaves (map (outcome \<sigma> F) (map address leaves)))
     = filter (\<lambda>lf. address lf \<in> F) leaves"
  by (induction leaves) (auto simp: outcome_def okResult_def)

lemma loadChunksInBatches_served:
  assumes "served w \<sigma> F"
  shows "\<exists>s'. loadChunksInBatches w leaves s =
           (map (\<lambda>lf. \<lparr>chunk_index = index lf, chunk_data = Some (\<sigma> (address lf))\<rparr>)
              (filter (\<lambda>lf. address lf \<notin> F) leaves),
            map Some (filter (\<lambda>lf. address lf \<in> F) leaves), s')"
proof -
  from loadChunksInBatches_results[OF batchGives_served[OF assms], of leaves s]
  obtain rs s' where
    q: "list_all2 (\<lambda>a r. r = outcome \<sigma> F a) (map address leaves) rs" and
    l: "loadChunksInBatches w leaves s =
          (loadedChunks (zip leaves rs), map Some (failedLeaves (zip leaves rs)), s')"
    by blast
  from list_all2_eq_map[OF q] have "rs = map (outcome \<sigma> F) (map address leaves)" .
  with l loadedChunks_outcome[of leaves \<sigma> F] failedLeaves_outcome[of leaves \<sigma> F]
  show ?thesis by (simp del: map_map)
qed

lemma all_rejected:
  "list_all2 (\<lambda>lf f. f = Rejected) lfs fs \<Longrightarrow>
   stillFailing (zip lfs fs) = lfs \<and> retriedChunks (zip lfs fs) = []"
  by (induction rule: list_all2_induct) auto

lemma retryLeaves_all_fail:
  assumes "\<forall>lf\<in>set lfs. \<forall>n. readPage w (address lf) n = None"
  shows "\<exists>s'. retryLeaves w (map Some lfs) (stillFailed, chunks, s) =
           (None, stillFailed @ map Some lfs, chunks, s')"
proof -
  from retryLeaves_results[of w lfs stillFailed chunks s] obtain fs s' where
    fs: "list_all2 (\<lambda>lf f. fetchGives w (address lf) f) lfs fs" and
    r: "retryLeaves w (map Some lfs) (stillFailed, chunks, s) =
         (None, stillFailed @ map Some (stillFailing (zip lfs fs)),
          chunks @ retriedChunks (zip lfs fs), s')"
    by blast
  from fs assms have "list_all2 (\<lambda>lf f. f = Rejected) lfs fs"
    by (auto simp: list_all2_conv_all_nth intro!: fetchGives_always_fail[where w=w])
  from all_rejected[OF this] r show ?thesis by auto
qed

lemma retryRounds_all_fail:
  assumes "\<forall>lf\<in>set lfs. \<forall>n. readPage w (address lf) n = None" and "lfs \<noteq> []"
  shows "r \<le> 5 \<Longrightarrow> \<exists>s'. retryRounds w r (map Some lfs) chunks s = (None, 5, map Some lfs, chunks, s')"
proof (induction "5 - r" arbitrary: r s)
  case 0
  then have "r = 5" by simp
  then show ?case by (simp add: retryRounds_stop)
next
  case (Suc n)
  then have r: "r < 5" and n: "n = 5 - Suc r" and r': "Suc r \<le> 5" by arith+
  from retryLeaves_all_fail[OF assms(1), of "[]" chunks
      "sleep (500 * (r + 1)) (log (RetryRound (r + 1) (length (map Some lfs))) s)"]
  obtain s1 where
    "retryLeaves w (map Some lfs)
       ([], chunks, sleep (500 * (r + 1)) (log (RetryRound (r + 1) (length (map Some lfs))) s))
     = (None, map Some lfs, chunks, s1)" by auto
  with Suc.hyps(1)[OF n r', of s1] r assms(2) show ?case
    by (simp add: retryRounds_step)
qed

lemma sorted_filter_descriptors:
  "sorted (map index (filter P (descriptors n as)))"
proof -
  have "sorted (map index (descriptors n as))" by simp
  then show ?thesis by (metis sorted_filter)
qed

lemma fetchTreeSequential_served:
  assumes srv: "served w \<sigma> F"
    and disc: "collectLeafAddresses w rootChunk depth s = (Inr leaves, s1)"
  shows "\<exists>s'. fetchTreeSequential w rootChunk depth s =
           (Inr (concat (map (\<sigma> \<circ> address) (filter (\<lambda>lf. address lf \<notin> F) leaves))), s')
         \<and> (filter (\<lambda>lf. address lf \<in> F) leaves \<noteq> [] \<longrightarrow>
              Log (PermanentlyFailed (length (filter (\<lambda>lf. address lf \<in> F) leaves))) \<in> set (trace s'))"
proof -
  define good where "good = filter (\<lambda>lf. address lf \<notin> F) leaves"
  define bad where "bad = filter (\<lambda>lf. address lf \<in> F) leaves"
  define cs where "cs = map (\<lambda>lf. \<lparr>chunk_index = index lf, chunk_data = Some (\<sigma> (address lf))\<rparr>) good"
  obtain ci where "traverseNode w rootChunk depth ([], 0, s) = (None, leaves, ci, s1)"
    using disc by (auto simp: collectLeafAddresses_def split: prod.splits option.splits)
  from traverse_order(1)[OF served_consistent[OF srv] this]
  have lv: "leaves = descriptors 0 (depthFirstLeaves \<sigma> depth rootChunk)" by simp
  have "map chunk_index cs = map index good" by (simp add: cs_def comp_def)
  then have "sorted (map chunk_index cs)"
    unfolding good_def lv by (simp only: sorted_filter_descriptors)
  then have srt: "sort_key chunk_index cs = cs" by (rule sort_key_id_if_sorted)
  have dat: "\<forall>c\<in>set cs. \<exists>d. chunk_data c = Some d" by (auto simp: cs_def)
  have cb: "concat (map chunkBytes cs) = concat (map (\<sigma> \<circ> address) good)"
    by (simp add: cs_def comp_def chunkBytes_def)
  from assemble_concat[OF dat] cb have asm: "assemble cs = Some (concat (map (\<sigma> \<circ> address) good))"
    by simp
  from loadChunksInBatches_served[OF srv, of leaves "log (FoundLeaves (length leaves)) s1"]
  obtain s2 where l: "loadChunksInBatches w leaves (log (FoundLeaves (length leaves)) s1)
                        = (cs, map Some bad, s2)"
    by (auto simp: cs_def good_def bad_def)
  show ?thesis
  proof (cases "bad = []")
    case True
    with disc l srt asm show ?thesis
      by (simp add: fetchTreeSequential_def good_def[symmetric] bad_def[symmetric])
  next
    case False
    have "\<forall>lf\<in>set bad. \<forall>n. readPage w (address lf) n = None"
      using srv by (auto simp: bad_def served_def)
    from retryRounds_all_fail[OF this False, of 0 cs "log (LoadedFailed (length cs) (length (map Some bad))) s2"]
    obtain s3 where
      "retryRounds w 0 (map Some bad) cs (log (LoadedFailed (length cs) (length (map Some bad))) s2)
         = (None, 5, map Some bad, cs, s3)" by auto
    with False have
      "retryFailedChunks w (map Some bad) cs (log (LoadedFailed (length cs) (length (map Some bad))) s2)
         = (None, cs, log (PermanentlyFailed (length bad)) s3)"
      by (simp add: retryFailedChunks_def)
    with False disc l srt asm show ?thesis
      by (simp add: fetchTreeSequential_def good_def[symmetric] bad_def[symmetric] log_def)
  qed
qed

subsection \<open>Chunking\<close>

lemma concat_chunksFrom: "0 < n \<Longrightarrow> concat (chunksFrom buf n i) = drop i buf"
proof (induction buf n i rule: chunksFrom.induct)
  case (1 buf n i)
  show ?case
  proof (cases "i < length buf")
    case True
    have "take (min (i + n) (length buf) - i) (drop i buf) = take n (drop i buf)"
      by (rule batch_slice)
    moreover have "drop (i + n) buf = drop n (drop i buf)" by (simp add: add.commute)
    ultimately show ?thesis
      using True "1.prems" "1.IH"
      by (subst chunksFrom.simps) (simp del: drop_drop)
  next
    case False
    then show ?thesis by (subst chunksFrom.simps) simp
  qed
qed

lemma chunkBuffer_concat: "chunkBuffer content n = Some cs \<Longrightarrow> concat cs = content"
  by (cases "n = 0")
     (auto simp: chunkBuffer_def concat_chunksFrom chunksFrom.simps[of "[]"] chunksFrom.simps[of _ 0]
           split: if_splits)

lemma distinct_submultiset: "mset xs \<subseteq># mset ys \<Longrightarrow> distinct ys \<Longrightarrow> distinct xs"
proof -
  assume s: "mset xs \<subseteq># mset ys" and d: "distinct ys"
  have "count (mset xs) a = (if a \<in> set xs then 1 else 0)" for a
  proof (cases "a \<in> set xs")
    case True
    then have "count (mset xs) a \<noteq> 0" by (simp add: count_eq_zero_iff)
    moreover from s have "count (mset xs) a \<le> count (mset ys) a" by (rule mset_subset_eq_count)
    moreover from d have "count (mset ys) a \<le> 1" by (simp add: distinct_count_atmost_1)
    ultimately have "count (mset xs) a = 1" by linarith
    then show ?thesis using True by simp
  next
    case False
    then show ?thesis by (simp add: count_eq_zero_iff)
  qed
  then show "distinct xs" by (simp add: distinct_count_atmost_1)
qed

lemma load_then_retry_distinct:
  assumes al: "aligned w" and di: "distinct (map index leaves)"
    and ld: "loadChunksInBatches w leaves s = (chunks, failed, s1)"
    and rt: "retryFailedChunks w failed chunks s2 = (e, chunks', s3)"
  shows "e = None
       \<and> (\<exists>lfs. failed = map Some lfs \<and> set (map chunk_index chunks) \<inter> set (map index lfs) = {})
       \<and> distinct (map chunk_index chunks')
       \<and> set (map chunk_index chunks') \<subseteq> set (map index leaves)
       \<and> (\<forall>c\<in>set chunks'. \<exists>d. chunk_data c = Some d)"
proof -
  from loadChunksInBatches_results[OF batchGives_aligned[OF al], of leaves s] ld
  obtain rs where
    len: "list_all2 (\<lambda>a r. True) (map address leaves) rs" and
    c: "chunks = loadedChunks (zip leaves rs)" and
    f: "failed = map Some (failedLeaves (zip leaves rs))"
    by auto
  from len have ll: "length rs = length leaves" by (auto dest: list_all2_lengthD)
  define f0 where "f0 = failedLeaves (zip leaves rs)"
  have part: "mset (map chunk_index chunks) + mset (map index f0) = mset (map index leaves)"
    using loaded_failed_partition[of "zip leaves rs"] ll
    by (simp add: c f0_def map_fst_zip flip: map_map)
  then have "distinct (map chunk_index chunks @ map index f0)"
    using di by (metis distinct_submultiset mset_append subset_mset.order_refl)
  then have disj: "set (map chunk_index chunks) \<inter> set (map index f0) = {}" by simp
  from retryFailedChunks_results[of w f0 chunks s2] rt f
  obtain cs where
    r: "e = None" "chunks' = chunks @ cs" and
    d: "\<forall>c\<in>set cs. \<exists>d. chunk_data c = Some d" and
    m: "mset (map chunk_index cs) \<subseteq># mset (map index f0)"
    by (auto simp: f0_def)
  have sub: "mset (map chunk_index chunks') \<subseteq># mset (map index leaves)"
    using m part r(2) by (metis map_append mset_append subset_mset.add_left_mono)
  from distinct_submultiset[OF sub di] have d1: "distinct (map chunk_index chunks')" .
  from sub have d2: "set (map chunk_index chunks') \<subseteq> set (map index leaves)"
    by (metis set_mset_mono set_mset_mset)
  have d3: "\<forall>c\<in>set chunks'. \<exists>d. chunk_data c = Some d"
    using d loadedChunks_data[of "zip leaves rs"] by (auto simp: r(2) c)
  from r(1) f disj d1 d2 d3 show ?thesis by (auto simp: f0_def)
qed

subsection \<open>The events of the retry rounds\<close>

lemma longSleeps_simps [simp]:
  "longSleeps [] = []"
  "longSleeps (Sleep ms # evs) = (if 500 \<le> ms then ms # longSleeps evs else longSleeps evs)"
  "longSleeps (ReadCall a # evs) = longSleeps evs"
  "longSleeps (AggregateCall as # evs) = longSleeps evs"
  "longSleeps (Log m # evs) = longSleeps evs"
  "longSleeps (xs @ ys) = longSleeps xs @ longSleeps ys"
  by (simp_all add: longSleeps_def)

lemma isReadCall_simps [simp]:
  "isReadCall (ReadCall a)" "\<not> isReadCall (Sleep ms)" "\<not> isReadCall (Log m)"
  "\<not> isReadCall (AggregateCall as)"
  by (simp_all add: isReadCall_def)





subsection \<open>Following one leaf through the rounds\<close>










lemma fetchChunkData_3_first_ok:
  "readPage w a (reads s a) = Some d \<Longrightarrow> fst (fetchChunkData w a 3 s) = Data d"
  by (simp add: fetchChunkData_def fetchAttempts_step)


section \<open>Lemmas about the video loader\<close>

subsection \<open>Extracting a segment\<close>

lemma CHUNK_SIZE_pos: "0 < CHUNK_SIZE w"
  by (simp add: CHUNK_SIZE_def split: option.split)

lemma sliceArray_nat: "sliceArray xs (int b) (int e) = take (e - b) (drop b xs)"
proof (cases "b < length xs")
  case True
  then show ?thesis
    by (cases "e \<le> length xs") (simp_all add: sliceArray_def Let_def min_def nat_diff_distrib')
next
  case False
  then show ?thesis by (simp add: sliceArray_def Let_def min_def)
qed

lemma sliceArray_Nil: "sliceArray [] b e = []"
  by (simp add: sliceArray_def Let_def)

lemma ceilDiv_le_iff: "0 < c \<Longrightarrow> ceilDiv x c \<le> a \<longleftrightarrow> x \<le> a * c"
proof -
  assume c: "0 < c"
  have "(x + c - 1) div c \<le> a \<longleftrightarrow> x + c - 1 < (a + 1) * c"
    using c by (simp add: div_less_iff_less_mult less_Suc_eq_le[symmetric] del: less_Suc_eq_le)
  also have "\<dots> \<longleftrightarrow> x \<le> a * c" using c by (cases c) auto
  finally show ?thesis by (simp add: ceilDiv_def)
qed

lemma getChunks_Some:
  "\<forall>i\<in>set js. chunkDataMap v i = Some (f i) \<Longrightarrow> getChunks v js = Some (map f js)"
  by (induction js) simp_all


lemma map_nth_upt: "b \<le> length xs \<Longrightarrow> map ((!) xs) [a..<b] = take (b - a) (drop a xs)"
  by (rule nth_equalityI) (auto simp: min_def)

lemma concat_full_length:
  "\<forall>x\<in>set xs. length x = c \<Longrightarrow> length (concat xs) = length xs * c"
  by (induction xs) simp_all

lemma drop_concat_full:
  "\<forall>x\<in>set xs. length x = c \<Longrightarrow> drop (length xs * c) (concat (xs @ ys)) = concat ys"
  using concat_full_length[of xs c] by simp

lemma drop_chunks:
  assumes "\<forall>i<length cs - 1. length (cs ! i) = c" and "a < length cs"
  shows "drop (a * c) (concat cs) = concat (drop a cs)"
proof -
  have "\<forall>x\<in>set (take a cs). length x = c"
  proof
    fix x assume "x \<in> set (take a cs)"
    then obtain i where "i < a" "i < length cs" "x = cs ! i"
      by (auto simp: in_set_conv_nth)
    with assms show "length x = c" by auto
  qed
  from drop_concat_full[OF this, of "drop a cs"] assms(2) show ?thesis
    by (simp add: min_def)
qed

lemma extract_bytes:
  assumes full: "\<forall>i<length cs - 1. length (cs ! i) = CHUNK_SIZE w"
    and hv: "\<forall>i\<in>set [adjustedChunkStart seg..<adjustedChunkEnd seg].
                 i < length cs \<and> chunkDataMap v i = Some (cs ! i)"
    and a: "adjustedChunkStart seg = (byteStart seg + (4 + headerLength v)) div CHUNK_SIZE w"
    and b: "adjustedChunkEnd seg = ceilDiv (byteEnd seg + (4 + headerLength v)) (CHUNK_SIZE w)"
  shows "extractSegmentData w v seg =
           Some (take (byteEnd seg - byteStart seg)
                   (drop (byteStart seg + (4 + headerLength v)) (concat cs)))"
proof -
  define C where "C = CHUNK_SIZE w"
  define H where "H = 4 + headerLength v"
  define A where "A = adjustedChunkStart seg"
  define B where "B = adjustedChunkEnd seg"
  define S where "S = byteStart seg"
  define E where "E = byteEnd seg"
  have C: "0 < C" by (simp add: C_def CHUNK_SIZE_pos)
  have A: "A = (S + H) div C" and B: "B = ceilDiv (E + H) C"
    using a b by (simp_all add: A_def B_def S_def E_def H_def C_def)
  have AC: "A * C \<le> S + H" unfolding A using C by simp
  have g: "getChunks v [A..<B] = Some (map ((!) cs) [A..<B])"
    using hv by (intro getChunks_Some) (simp add: A_def B_def)
  have ex: "extractSegmentData w v seg =
      Some (sliceArray (concat (map ((!) cs) [A..<B])) (int (S + H) - int (A * C))
             (int (S + H) - int (A * C) + (int E - int S)))"
    using g by (simp add: extractSegmentData_def Let_def A_def B_def S_def E_def H_def C_def
        del: of_nat_add of_nat_mult)
  show ?thesis
  proof (cases "A < B")
    case False
    then have "ceilDiv (E + H) C \<le> A" using B by simp
    then have "E + H \<le> A * C" using C by (simp add: ceilDiv_le_iff)
    with AC have "E \<le> S" by simp
    with False ex show ?thesis
      by (simp add: sliceArray_Nil S_def E_def)
  next
    case True
    then have "\<not> ceilDiv (E + H) C \<le> A" using B by simp
    then have EA: "A * C < E + H" using C by (simp add: ceilDiv_le_iff)
    have EB: "E + H \<le> B * C" using C ceilDiv_le_iff[of C "E + H" B] B by simp
    from True have "B - 1 \<in> set [A..<B]" by auto
    with hv have Bn: "B \<le> length cs" unfolding A_def B_def by fastforce
    with True have An: "A < length cs" by simp
    define assembled where "assembled = concat (map ((!) cs) [A..<B])"
    have as: "assembled = concat (take (B - A) (drop A cs))"
      unfolding assembled_def using Bn by (simp add: map_nth_upt)
    have dr: "drop (A * C) (concat cs) = assembled @ concat (drop B cs)"
    proof -
      have "drop A cs = take (B - A) (drop A cs) @ drop B cs"
        using True by (metis append_take_drop_id drop_drop le_add_diff_inverse2 less_imp_le)
      then have "concat (drop A cs) = assembled @ concat (drop B cs)"
        unfolding as by (metis concat_append)
      with drop_chunks[OF _ An, of C] full show ?thesis by (simp add: C_def)
    qed
    have st: "int (S + H) - int (A * C) = int (S + H - A * C)" using AC by simp
    have en: "int (S + H) - int (A * C) + (int E - int S) = int (E + H - A * C)"
      using AC EA by simp
    have sl: "sliceArray assembled (int (S + H - A * C)) (int (E + H - A * C))
                = take (E - S) (drop (S + H - A * C) assembled)"
    proof -
      have "(E + H - A * C) - (S + H - A * C) = E - S" using AC by arith
      then show ?thesis by (simp add: sliceArray_nat)
    qed
    have "take (E - S) (drop (S + H) (concat cs))
            = take (E - S) (drop (S + H - A * C) (drop (A * C) (concat cs)))"
      using AC by simp
    also have "\<dots> = take (E - S) (drop (S + H - A * C) (assembled @ concat (drop B cs)))"
      by (simp only: dr)
    also have "\<dots> = take (E - S) (drop (S + H - A * C) assembled)"
    proof (cases "B < length cs")
      case False
      with Bn show ?thesis by simp
    next
      case Bl: True
      have "\<forall>x\<in>set (take (B - A) (drop A cs)). length x = C"
      proof
        fix x assume "x \<in> set (take (B - A) (drop A cs))"
        then obtain i where "i < B - A" "x = cs ! (A + i)"
          using Bn by (auto simp: in_set_conv_nth)
        with Bl full show "length x = C" by (simp add: C_def)
      qed
      moreover have "length (take (B - A) (drop A cs)) = B - A" using Bn True by simp
      ultimately have "length assembled = (B - A) * C"
        unfolding as using concat_full_length[of "take (B - A) (drop A cs)" C] by metis
      then have "E + H - A * C \<le> length assembled"
        using EB by (simp add: diff_mult_distrib)
      then have "S \<le> E \<Longrightarrow> E - S + (S + H - A * C) \<le> length assembled"
        using AC by arith
      then show ?thesis by (cases "S \<le> E") simp_all
    qed
    finally have fin: "take (E - S) (drop (S + H) (concat cs))
                         = take (E - S) (drop (S + H - A * C) assembled)" .
    have en': "int (S + H - A * C) + (int E - int S) = int (E + H - A * C)"
      using en st by simp
    have "extractSegmentData w v seg
            = Some (sliceArray assembled (int (S + H - A * C)) (int (E + H - A * C)))"
      unfolding ex st en' assembled_def ..
    then have "extractSegmentData w v seg = Some (take (E - S) (drop (S + H) (concat cs)))"
      unfolding sl fin .
    then show ?thesis unfolding S_def E_def H_def .
  qed
qed

subsection \<open>The order of the appends\<close>

lemma released_simps [simp]:
  "released [] = []"
  "released (ChunkSet i # evs) = released evs"
  "released (AppendBuffer k d # evs) = k # released evs"
  "released (AppendError k # evs) = released evs"
  "released (Play # evs) = released evs"
  "released (EndOfStream # evs) = released evs"
  "released (BlobSrc b # evs) = released evs"
  "released (evs @ evs') = released evs @ released evs'"
  by (simp_all add: released_def)

lemma arrived_simps [simp]:
  "arrived [] = {}"
  "arrived (ChunkSet i # evs) = insert i (arrived evs)"
  "arrived (AppendBuffer k d # evs) = arrived evs"
  "arrived (AppendError k # evs) = arrived evs"
  "arrived (Play # evs) = arrived evs"
  "arrived (EndOfStream # evs) = arrived evs"
  "arrived (BlobSrc b # evs) = arrived evs"
  "arrived (evs @ evs') = arrived evs \<union> arrived evs'"
  by (auto simp: arrived_def)




lemma length_adjustSegmentOffsets [simp]: "length (adjustSegmentOffsets w v segs) = length segs"
  by (simp add: adjustSegmentOffsets_def Let_def)














lemmas video_defs = init_def fallbackLoad_def streamVideoWithSegments_def collectLeafAddresses_video_def
  fetchChunkData_video_def fetchChunksBatch_video_def batchOrIndividually_def videoDelay_def
  streamBatches.simps streamBatch_def parseOnce_def parseHeaderFromChunks_def copyHeader.simps
  appendSegments.simps isSegmentComplete_def extractSegmentData_def adjustSegmentOffsets_def
  sliceArray_def getUint32_def ceilDiv_def CHUNK_SIZE_def BATCH_SIZE_def startPlayback_def
  appendCount_def isAppend_def directBatches.simps directBatch_def setAt_def validChunks_def
  videoDataOf_def isRawMP4_def initialVideo_def resultOf_def


section \<open>The load on a network that keeps the readers' contracts\<close>

lemma fetchAttempts_Data_read:
  "fetchAttempts delay w a retries i s = (Data d, s') \<Longrightarrow> \<exists>n. readPage w a n = Some d"
proof (induction "retries - i" arbitrary: i s)
  case 0
  then show ?case by (simp add: fetchAttempts_done)
next
  case (Suc n)
  then have lt: "i < retries" by arith
  have nx: "Suc i \<noteq> retries \<Longrightarrow> n = retries - Suc i" using Suc.hyps(2) by arith
  show ?case
  proof (cases "readPage w a (reads s a)")
    case None
    with Suc.prems lt nx Suc.hyps(1) show ?thesis
      by (auto simp: fetchAttempts_step split: if_splits)
  next
    case (Some d')
    with Suc.prems lt show ?thesis
      by (auto simp: fetchAttempts_step)
  qed
qed

lemma fetched_delivered:
  assumes "consistent w \<sigma>" and "fetchAttempts delay w a retries i s = (f, s')"
  shows "delivered w \<sigma> a (resultOf f)"
proof (cases f)
  case (Data d)
  from fetchAttempts_consistent[OF assms(1) assms(2)[unfolded Data]] have "d = \<sigma> a" .
  moreover from fetchAttempts_Data_read[OF assms(2)[unfolded Data]] have "\<not> dead w a"
    by (auto simp: dead_def)
  ultimately show ?thesis using Data by (simp add: delivered_def resultOf_def)
qed (simp_all add: delivered_def resultOf_def okResult_def)

lemma individually_delivered:
  "consistent w \<sigma> \<Longrightarrow> list_all2 (delivered w \<sigma>) addrs (fst (individually delay w addrs retries s))"
proof (induction addrs arbitrary: s)
  case Nil
  then show ?case by simp
next
  case (Cons a addrs)
  obtain f s1 where f: "fetchAttempts delay w a retries 0 s = (f, s1)"
    by (cases "fetchAttempts delay w a retries 0 s")
  from fetched_delivered[OF Cons.prems f] Cons.IH[OF Cons.prems, of s1] f show ?case
    by (auto split: prod.splits)
qed

lemma slots_delivered:
  assumes "faithful w \<sigma>" and "aggregate3 w n addrs = Some slots"
  shows "list_all2 (delivered w \<sigma>) addrs (map (parseResult w) slots)"
proof -
  from assms have len: "length slots = length addrs"
    and dat: "\<forall>i<length addrs. okResult (parseResult w (slots ! i)) \<longrightarrow>
                  data (parseResult w (slots ! i)) = Some (\<sigma> (addrs ! i))"
    by (auto simp: faithful_def)
  have "\<forall>i<length addrs. delivered w \<sigma> (addrs ! i) (parseResult w (slots ! i))"
  proof (intro allI impI)
    fix i assume i: "i < length addrs"
    show "delivered w \<sigma> (addrs ! i) (parseResult w (slots ! i))"
      unfolding delivered_def
    proof
      assume ok: "okResult (parseResult w (slots ! i))"
      with dat i have "data (parseResult w (slots ! i)) = Some (\<sigma> (addrs ! i))" by blast
      moreover from ok i assms(2) have "\<not> dead w (addrs ! i)" by (auto simp: dead_def)
      ultimately show "data (parseResult w (slots ! i)) = Some (\<sigma> (addrs ! i)) \<and> \<not> dead w (addrs ! i)"
        by blast
    qed
  qed
  with len show ?thesis by (simp add: list_all2_conv_all_nth)
qed

lemma batchAttempts_delivered:
  "faithful w \<sigma> \<Longrightarrow> i < retries \<Longrightarrow>
   \<exists>rs. fst (batchAttempts delay w addrs retries i s) = Some rs \<and> list_all2 (delivered w \<sigma>) addrs rs"
proof (induction "retries - i" arbitrary: i s)
  case 0
  then show ?case by simp
next
  case (Suc n)
  have nx: "Suc i \<noteq> retries \<Longrightarrow> n = retries - Suc i \<and> Suc i < retries" using Suc.hyps(2) by arith
  from Suc.prems(1) have c: "consistent w \<sigma>" by (simp add: faithful_def)
  show ?case
  proof (cases "aggregate3 w (aggs s) addrs")
    case None
    show ?thesis
    proof (cases "Suc i = retries")
      case True
      with None Suc.prems
        individually_delivered[OF c, of addrs delay retries "snd (readAggregate3 w addrs s)"]
      show ?thesis
        by (auto simp: batchAttempts_step readAggregate3_def split: prod.splits)
    next
      case False
      with None Suc.prems Suc.hyps(1)[of "Suc i"] nx show ?thesis
        by (simp add: batchAttempts_step readAggregate3_def)
    qed
  next
    case (Some slots)
    with Suc.prems slots_delivered[OF Suc.prems(1) Some] show ?thesis
      by (simp add: batchAttempts_step readAggregate3_def)
  qed
qed

lemma batchGives_faithful: "faithful w \<sigma> \<Longrightarrow> batchGives w (delivered w \<sigma>)"
  unfolding batchGives_def
proof (intro allI)
  fix addrs s
  assume f: "faithful w \<sigma>"
  then have c: "consistent w \<sigma>" by (simp add: faithful_def)
  show "\<exists>rs. fst (fetchChunksBatch w addrs 2 s) = Some rs \<and> list_all2 (delivered w \<sigma>) addrs rs"
    using individually_delivered[OF c, of addrs loaderDelay 2 s]
      batchAttempts_delivered[OF f, of 0 2 loaderDelay addrs s]
    by (auto simp: fetchChunksBatch_def batchOrIndividually_def split: prod.splits)
qed

lemma faithful_aligned: "faithful w \<sigma> \<Longrightarrow> aligned w"
  by (simp add: faithful_def aligned_def)

lemma loaded_entries:
  "list_all2 (\<lambda>lf r. delivered w \<sigma> (address lf) r) leaves rs \<Longrightarrow>
   loadedChunks (zip leaves rs)
     = map (entry \<sigma>) (map fst (filter (\<lambda>(lf, r). okResult r) (zip leaves rs)))
   \<and> mset (map fst (filter (\<lambda>(lf, r). okResult r) (zip leaves rs)))
       + mset (failedLeaves (zip leaves rs)) = mset leaves
   \<and> (\<forall>lf\<in>set leaves. dead w (address lf) \<longrightarrow> lf \<in> set (failedLeaves (zip leaves rs)))"
proof (induction rule: list_all2_induct)
  case Nil
  then show ?case by simp
next
  case (Cons lf leaves r rs)
  then show ?case
    by (cases "okResult r") (auto simp: delivered_def entry_def okResult_def)
qed

lemma round_entries:
  "list_all2 (\<lambda>lf f. fetchGives w (address lf) f) lfs fs \<Longrightarrow> consistent w \<sigma> \<Longrightarrow>
   retriedChunks (zip lfs fs)
     = map (entry \<sigma>) (map fst (filter (\<lambda>(lf, f). isData f) (zip lfs fs)))
   \<and> mset (map fst (filter (\<lambda>(lf, f). isData f) (zip lfs fs))) + mset (stillFailing (zip lfs fs))
       = mset lfs
   \<and> (\<forall>lf\<in>set (stillFailing (zip lfs fs)). \<exists>f. fetchGives w (address lf) f \<and> \<not> isData f)"
proof (induction rule: list_all2_induct)
  case Nil
  then show ?case by simp
next
  case (Cons lf lfs f fs)
  show ?case
  proof (cases f)
    case (Data d)
    with Cons.hyps(1) Cons.prems have "d = \<sigma> (address lf)" by (auto dest: fetchGives_consistent)
    with Data Cons show ?thesis by (simp add: isData_def entry_def)
  next
    case Rejected
    with Cons show ?thesis by (auto simp: isData_def)
  next
    case NoValue
    with Cons.hyps(1) fetchGives_not_NoValue show ?thesis by blast
  qed
qed

lemma fetchGives_readable:
  "\<forall>n. readPage w a n \<noteq> None \<Longrightarrow> fetchGives w a f \<Longrightarrow> isData f"
proof -
  assume r: "\<forall>n. readPage w a n \<noteq> None" and "fetchGives w a f"
  then obtain s s' where f: "fetchChunkData w a 3 s = (f, s')" by (auto simp: fetchGives_def)
  from r obtain d where "readPage w a (reads s a) = Some d" by auto
  from fetchChunkData_3_first_ok[OF this] f show "isData f" by (simp add: isData_def)
qed

lemma retryRounds_entries:
  "consistent w \<sigma> \<Longrightarrow> r \<le> 5 \<Longrightarrow>
   \<exists>R lfs' got s'.
     retryRounds w r (map Some lfs) chunks s = (None, R, map Some lfs', chunks @ map (entry \<sigma>) got, s')
     \<and> mset got + mset lfs' = mset lfs
     \<and> (lfs' \<noteq> [] \<longrightarrow> R = 5)
     \<and> (\<forall>lf\<in>set lfs. (\<forall>n. readPage w (address lf) n = None) \<longrightarrow> lf \<in> set lfs')
     \<and> (r < 5 \<longrightarrow> (\<forall>lf\<in>set lfs'. \<exists>f. fetchGives w (address lf) f \<and> \<not> isData f))"
proof (induction "5 - r" arbitrary: r lfs chunks s)
  case 0
  then have "r = 5" by simp
  then show ?case
    by (intro exI[of _ r] exI[of _ lfs] exI[of _ "[]"] exI[of _ s]) (simp add: retryRounds_stop)
next
  case (Suc n)
  then have r: "r < 5" and n: "n = 5 - Suc r" and r': "Suc r \<le> 5" by arith+
  show ?case
  proof (cases "lfs = []")
    case True
    then show ?thesis
      by (intro exI[of _ r] exI[of _ lfs] exI[of _ "[]"] exI[of _ s]) (simp add: retryRounds_stop)
  next
    case False
    define s0 where "s0 = sleep (500 * (r + 1)) (log (RetryRound (r + 1) (length (map Some lfs))) s)"
    from retryLeaves_results[of w lfs "[]" chunks s0] obtain fs s1 where
      fs: "list_all2 (\<lambda>lf f. fetchGives w (address lf) f) lfs fs" and
      rl: "retryLeaves w (map Some lfs) ([], chunks, s0) =
             (None, map Some (stillFailing (zip lfs fs)), chunks @ retriedChunks (zip lfs fs), s1)"
      by auto
    define got1 where "got1 = map fst (filter (\<lambda>(lf, f). isData f) (zip lfs fs))"
    define sf where "sf = stillFailing (zip lfs fs)"
    from round_entries[OF fs Suc.prems(1)] have
      e1: "retriedChunks (zip lfs fs) = map (entry \<sigma>) got1" and
      p1: "mset got1 + mset sf = mset lfs" and
      f1: "\<forall>lf\<in>set sf. \<exists>f. fetchGives w (address lf) f \<and> \<not> isData f"
      by (simp_all add: got1_def sf_def)
    from Suc.hyps(1)[OF n Suc.prems(1) r', of sf "chunks @ map (entry \<sigma>) got1" s1]
    obtain R lfs' got2 s' where
      rr: "retryRounds w (Suc r) (map Some sf) (chunks @ map (entry \<sigma>) got1) s1 =
           (None, R, map Some lfs', (chunks @ map (entry \<sigma>) got1) @ map (entry \<sigma>) got2, s')" and
      p2: "mset got2 + mset lfs' = mset sf" and
      b: "lfs' \<noteq> [] \<longrightarrow> R = 5" and
      keep: "\<forall>lf\<in>set sf. (\<forall>n. readPage w (address lf) n = None) \<longrightarrow> lf \<in> set lfs'"
      by blast
    have run: "retryRounds w r (map Some lfs) chunks s =
                 (None, R, map Some lfs', chunks @ map (entry \<sigma>) (got1 @ got2), s')"
      using False r rl rr by (simp add: retryRounds_step s0_def e1 sf_def)
    have part: "mset (got1 @ got2) + mset lfs' = mset lfs"
      using p1 unfolding p2[symmetric] by (simp add: ac_simps)
    have sub: "set lfs' \<subseteq> set sf"
      using p2 by (metis mset_subset_eq_add_right set_mset_mono set_mset_mset)
    have k': "\<forall>lf\<in>set lfs. (\<forall>n. readPage w (address lf) n = None) \<longrightarrow> lf \<in> set lfs'"
    proof (intro ballI impI)
      fix lf assume lf: "lf \<in> set lfs" and d: "\<forall>n. readPage w (address lf) n = None"
      have "\<forall>f. fetchGives w (address lf) f \<longrightarrow> \<not> isData f"
      proof (intro allI impI)
        fix f assume "fetchGives w (address lf) f"
        from fetchGives_always_fail[OF d this] show "\<not> isData f" by (simp add: isData_def)
      qed
      from round_keeps_failing[OF fs lf this] keep d show "lf \<in> set lfs'"
        by (simp add: sf_def)
    qed
    have f': "\<forall>lf\<in>set lfs'. \<exists>f. fetchGives w (address lf) f \<and> \<not> isData f"
      using f1 sub by blast
    show ?thesis
      apply (rule_tac x=R in exI)
      apply (rule_tac x=lfs' in exI)
      apply (rule_tac x="got1 @ got2" in exI)
      apply (rule_tac x=s' in exI)
      using run part b k' f' by simp
  qed
qed

lemma filter_key_singleton:
  "distinct (map f xs) \<Longrightarrow> k \<in> set xs \<Longrightarrow> filter (\<lambda>x. f k = f x) xs = [k]"
proof (induction xs)
  case Nil
  then show ?case by simp
next
  case (Cons x xs)
  show ?case
  proof (cases "k = x")
    case True
    with Cons.prems(1) have "filter (\<lambda>y. f x = f y) xs = []"
      by (auto simp: filter_empty_conv)
    with True show ?thesis by simp
  next
    case False
    with Cons.prems have k: "k \<in> set xs" and d: "distinct (map f xs)" and n: "f x \<notin> f ` set xs"
      by auto
    from k n have "f k \<noteq> f x" by (metis imageI)
    with Cons.IH[OF d k] show ?thesis by simp
  qed
qed

lemma sort_entries:
  assumes so: "sorted (map index leaves)" and di: "distinct (map index leaves)"
    and part: "mset G + mset L = mset leaves"
  shows "sort_key chunk_index (map (entry \<sigma>) G) = map (entry \<sigma>) (filter (\<lambda>lf. lf \<notin> set L) leaves)"
proof -
  define F where "F = filter (\<lambda>lf. lf \<notin> set L) leaves"
  have ci: "\<And>xs. map chunk_index (map (entry \<sigma>) xs) = map index xs"
    by (simp add: entry_def comp_def)
  from di have dl: "distinct leaves" by (simp add: distinct_map)
  have "distinct (G @ L)"
    using part dl by (metis mset_append mset_eq_imp_distinct_iff)
  then have dG: "distinct G" and dj: "set G \<inter> set L = {}" by auto
  have su: "set G \<union> set L = set leaves"
    using part by (metis mset_append set_append mset_eq_setD)
  have "set F = set G" using su dj by (auto simp: F_def)
  moreover have "distinct F" using dl by (simp add: F_def)
  ultimately have mF: "mset F = mset G" using dG by (simp add: set_eq_iff_mset_eq_distinct)
  have dF: "distinct (map index F)" unfolding F_def using di by (rule distinct_map_filter)
  have "mset (map index G) = mset (map index F)" using mF by simp
  with dF have dGi: "distinct (map index G)" by (metis mset_eq_imp_distinct_iff)
  have sF: "sorted (map index F)" unfolding F_def using so by (rule sorted_filter)
  show ?thesis
    unfolding F_def[symmetric]
  proof (rule properties_for_sort_key)
    show "mset (map (entry \<sigma>) F) = mset (map (entry \<sigma>) G)" using mF by simp
  next
    fix k assume k: "k \<in> set (map (entry \<sigma>) F)"
    then have k': "k \<in> set (map (entry \<sigma>) G)" using mF by (metis mset_map set_mset_mset)
    from filter_key_singleton[of chunk_index "map (entry \<sigma>) F" k] k dF
    have "filter (\<lambda>x. chunk_index k = chunk_index x) (map (entry \<sigma>) F) = [k]"
      by (simp only: ci)
    moreover from filter_key_singleton[of chunk_index "map (entry \<sigma>) G" k] k' dGi
    have "filter (\<lambda>x. chunk_index k = chunk_index x) (map (entry \<sigma>) G) = [k]"
      by (simp only: ci)
    ultimately show "filter (\<lambda>x. chunk_index k = chunk_index x) (map (entry \<sigma>) F)
        = filter (\<lambda>x. chunk_index k = chunk_index x) (map (entry \<sigma>) G)" by simp
  next
    show "sorted (map chunk_index (map (entry \<sigma>) F))" using sF by (simp only: ci)
  qed
qed

lemma assemble_entries: "assemble (map (entry \<sigma>) F) = Some (concat (map (\<sigma> \<circ> address) F))"
proof -
  have "\<forall>c\<in>set (map (entry \<sigma>) F). \<exists>d. chunk_data c = Some d" by (auto simp: entry_def)
  from assemble_concat[OF this] show ?thesis
    by (simp add: chunkBytes_def entry_def comp_def)
qed

lemma fetchTreeSequential_faithful:
  assumes fa: "faithful w \<sigma>"
    and disc: "collectLeafAddresses w rootChunk depth s = (Inr leaves, s1)"
  shows "\<exists>lost s'.
      fetchTreeSequential w rootChunk depth s =
        (Inr (concat (map (\<sigma> \<circ> address) (filter (\<lambda>lf. lf \<notin> set lost) leaves))), s')
    \<and> mset lost \<subseteq># mset leaves
    \<and> (lost \<noteq> [] \<longrightarrow> Log (PermanentlyFailed (length lost)) \<in> set (trace s'))
    \<and> (\<forall>lf\<in>set leaves. dead w (address lf) \<longrightarrow> lf \<in> set lost)
    \<and> (\<forall>lf\<in>set leaves. (\<forall>n. readPage w (address lf) n \<noteq> None) \<longrightarrow> lf \<notin> set lost)"
proof -
  from fa have co: "consistent w \<sigma>" by (simp add: faithful_def)
  obtain ci where "traverseNode w rootChunk depth ([], 0, s) = (None, leaves, ci, s1)"
    using disc by (auto simp: collectLeafAddresses_def split: prod.splits option.splits)
  from traverse_order(1)[OF co this]
  have lv: "leaves = descriptors 0 (depthFirstLeaves \<sigma> depth rootChunk)" by simp
  have so: "sorted (map index leaves)" and di: "distinct (map index leaves)"
    by (simp_all add: lv)
  define sF where "sF = log (FoundLeaves (length leaves)) s1"
  from loadChunksInBatches_results[OF batchGives_faithful[OF fa], of leaves sF]
  obtain rs s2 where
    q: "list_all2 (delivered w \<sigma>) (map address leaves) rs" and
    l: "loadChunksInBatches w leaves sF =
          (loadedChunks (zip leaves rs), map Some (failedLeaves (zip leaves rs)), s2)"
    by blast
  from q have q': "list_all2 (\<lambda>lf r. delivered w \<sigma> (address lf) r) leaves rs"
    by (simp add: list_all2_map1)
  define G0 where "G0 = map fst (filter (\<lambda>(lf, r). okResult r) (zip leaves rs))"
  define F0 where "F0 = failedLeaves (zip leaves rs)"
  from loaded_entries[OF q'] have
    c0: "loadedChunks (zip leaves rs) = map (entry \<sigma>) G0" and
    p0: "mset G0 + mset F0 = mset leaves" and
    d0: "\<forall>lf\<in>set leaves. dead w (address lf) \<longrightarrow> lf \<in> set F0"
    by (simp_all add: G0_def F0_def)
  define sL where "sL = log (LoadedFailed (length G0) (length F0)) s2"
  show ?thesis
  proof (cases "F0 = []")
    case True
    from sort_entries[OF so di, of G0 "[]" \<sigma>] p0 True
    have srt: "sort_key chunk_index (map (entry \<sigma>) G0) = map (entry \<sigma>) leaves" by simp
    have run: "fetchTreeSequential w rootChunk depth s =
        (Inr (concat (map (\<sigma> \<circ> address) leaves)),
         log (Complete (length (map (entry \<sigma>) G0)) (length (concat (map (\<sigma> \<circ> address) leaves)))) sL)"
      using disc l True
      by (simp add: fetchTreeSequential_def sF_def[symmetric] c0 F0_def[symmetric] srt
          assemble_entries sL_def)
    from d0 True have "\<forall>lf\<in>set leaves. \<not> dead w (address lf)" by auto
    with run show ?thesis
      by (intro exI[of _ "[]"] exI) auto
  next
    case False
    from retryRounds_entries[OF co, of 0 F0 "map (entry \<sigma>) G0" sL] obtain R lfs' got s3 where
      rr: "retryRounds w 0 (map Some F0) (map (entry \<sigma>) G0) sL =
             (None, R, map Some lfs', map (entry \<sigma>) G0 @ map (entry \<sigma>) got, s3)" and
      p1: "mset got + mset lfs' = mset F0" and
      keep: "\<forall>lf\<in>set F0. (\<forall>n. readPage w (address lf) n = None) \<longrightarrow> lf \<in> set lfs'" and
      bad: "\<forall>lf\<in>set lfs'. \<exists>f. fetchGives w (address lf) f \<and> \<not> isData f"
      by auto
    define s4 where "s4 = (if lfs' \<noteq> [] then log (PermanentlyFailed (length lfs')) s3 else s3)"
    have rf: "retryFailedChunks w (map Some F0) (map (entry \<sigma>) G0) sL =
                (None, map (entry \<sigma>) (G0 @ got), s4)"
      using False rr by (simp add: retryFailedChunks_def s4_def)
    have part: "mset (G0 @ got) + mset lfs' = mset leaves"
      using p0 unfolding p1[symmetric] by (simp add: ac_simps)
    from sort_entries[OF so di part, of \<sigma>]
    have srt: "sort_key chunk_index (map (entry \<sigma>) (G0 @ got))
                 = map (entry \<sigma>) (filter (\<lambda>lf. lf \<notin> set lfs') leaves)" .
    define result where "result = concat (map (\<sigma> \<circ> address) (filter (\<lambda>lf. lf \<notin> set lfs') leaves))"
    have run: "fetchTreeSequential w rootChunk depth s =
        (Inr result, log (Complete (length (map (entry \<sigma>) (G0 @ got))) (length result)) s4)"
      using disc l False rf
      by (simp add: fetchTreeSequential_def sF_def[symmetric] c0 F0_def[symmetric]
          sL_def[symmetric] srt assemble_entries result_def del: map_append)
    have sub: "mset lfs' \<subseteq># mset leaves"
      using part by (metis mset_subset_eq_add_right)
    have lg: "lfs' \<noteq> [] \<longrightarrow> Log (PermanentlyFailed (length lfs'))
                \<in> set (trace (log (Complete (length (map (entry \<sigma>) (G0 @ got))) (length result)) s4))"
      by (simp add: s4_def log_def)
    have dd: "\<forall>lf\<in>set leaves. dead w (address lf) \<longrightarrow> lf \<in> set lfs'"
      using d0 keep by (auto simp: dead_def)
    have rd: "\<forall>lf\<in>set leaves. (\<forall>n. readPage w (address lf) n \<noteq> None) \<longrightarrow> lf \<notin> set lfs'"
      using bad fetchGives_readable by blast
    show ?thesis
      apply (rule_tac x=lfs' in exI)
      apply (rule_tac x="log (Complete (length (map (entry \<sigma>) (G0 @ got))) (length result)) s4" in exI)
      using run sub lg dd rd unfolding result_def by blast
  qed
qed

section \<open>The retry rounds as a trace\<close>



lemma round_simps [simp]:
  "failedOf [] = []" "succeededOf [] = []" "readsOk []"
  "failedOf ((lf, k, ok) # rd) = (if ok then failedOf rd else lf # failedOf rd)"
  "succeededOf ((lf, k, ok) # rd) = (if ok then lf # succeededOf rd else succeededOf rd)"
  "readsOk ((lf, k, ok) # rd) = (1 \<le> k \<and> k \<le> 3 \<and> (ok \<or> k = 3) \<and> readsOk rd)"
  by (simp_all add: failedOf_def succeededOf_def readsOk_def)




section \<open>Claims about discovery\<close>

text \<open>
  Claim C3.  For a fixed tree (the page contents \<open>\<sigma>\<close>) and any network that answers
  reads with the tree's content or not at all, whenever and however often: if
  \<^verbatim>\<open>collectLeafAddresses\<close> returns, it returns the leaves in depth-first, left-to-right
  order, numbered 0, 1, ..., n - 1 by the shared counter; the list depends on the tree
  only, not on which reads failed or on the state the run started in.  The extension's
  \<^verbatim>\<open>collectLeaves\<close> returns the same addresses in the same order.  On a network without
  failures both do return, with these lists.
\<close>

theorem discovery_order:
  assumes "consistent w \<sigma>"
  shows "(\<forall>ls t. collectLeafAddresses w rootChunk depth s = (Inr ls, t) \<longrightarrow>
            ls = descriptors 0 (depthFirstLeaves \<sigma> depth rootChunk))
       \<and> (\<forall>addrs t. collectLeaves w rootChunk depth ([], s) = (None, addrs, t) \<longrightarrow>
            addrs = depthFirstLeaves \<sigma> depth rootChunk)
       \<and> map index (descriptors 0 (depthFirstLeaves \<sigma> depth rootChunk))
            = [0..<length (depthFirstLeaves \<sigma> depth rootChunk)]
       \<and> map address (descriptors 0 (depthFirstLeaves \<sigma> depth rootChunk))
            = depthFirstLeaves \<sigma> depth rootChunk
       \<and> ((\<forall>a n. readPage w a n = Some (\<sigma> a)) \<longrightarrow>
            fst (collectLeafAddresses w rootChunk depth s)
              = Inr (descriptors 0 (depthFirstLeaves \<sigma> depth rootChunk)))
       \<and> ((\<forall>a n. readPage w a n = Some (\<sigma> a)) \<longrightarrow>
            fst (collectLeaves w rootChunk depth ([], s)) = None
            \<and> fst (snd (collectLeaves w rootChunk depth ([], s)))
                = depthFirstLeaves \<sigma> depth rootChunk)"
proof (intro conjI allI impI)
  fix ls t
  assume run: "collectLeafAddresses w rootChunk depth s = (Inr ls, t)"
  then obtain ci where "traverseNode w rootChunk depth ([], 0, s) = (None, ls, ci, t)"
    by (auto simp: collectLeafAddresses_def split: prod.splits option.splits)
  from traverse_order(1)[OF assms this]
  show "ls = descriptors 0 (depthFirstLeaves \<sigma> depth rootChunk)" by simp
next
  fix addrs t
  assume "collectLeaves w rootChunk depth ([], s) = (None, addrs, t)"
  from collectLeaves_order(1)[OF assms this]
  show "addrs = depthFirstLeaves \<sigma> depth rootChunk" by simp
next
  assume ok: "\<forall>a n. readPage w a n = Some (\<sigma> a)"
  obtain e ls ci t where r: "traverseNode w rootChunk depth ([], 0, s) = (e, ls, ci, t)"
    by (cases "traverseNode w rootChunk depth ([], 0, s)") auto
  with traverse_error_free(1)[OF ok, of rootChunk depth "([], 0, s)"] have e: "e = None" by simp
  from traverse_order(1)[OF assms r[unfolded e]]
  have "ls = descriptors 0 (depthFirstLeaves \<sigma> depth rootChunk)" by simp
  with r e show "fst (collectLeafAddresses w rootChunk depth s)
      = Inr (descriptors 0 (depthFirstLeaves \<sigma> depth rootChunk))"
    by (simp add: collectLeafAddresses_def)
next
  assume ok: "\<forall>a n. readPage w a n = Some (\<sigma> a)"
  from collectLeaves_error_free(1)[OF ok]
  show "fst (collectLeaves w rootChunk depth ([], s)) = None" .
next
  assume ok: "\<forall>a n. readPage w a n = Some (\<sigma> a)"
  obtain e addrs t where r: "collectLeaves w rootChunk depth ([], s) = (e, addrs, t)"
    by (cases "collectLeaves w rootChunk depth ([], s)") auto
  with collectLeaves_error_free(1)[OF ok, of rootChunk depth "([], s)"] have e: "e = None" by simp
  from collectLeaves_order(1)[OF assms r[unfolded e]] r
  show "fst (snd (collectLeaves w rootChunk depth ([], s))) = depthFirstLeaves \<sigma> depth rootChunk"
    by simp
qed simp_all

theorem discovery_order_witness:
  "consistent flakyWorld exampleTree
   \<and> fst (collectLeafAddresses flakyWorld (page 0) (Suc (Suc 0)) initialState)
       = Inr (descriptors 0 (depthFirstLeaves exampleTree (Suc (Suc 0)) (page 0)))
   \<and> fst (collectLeafAddresses flakyWorld (page 0) (Suc (Suc 0)) initialState)
       = Inr [\<lparr>index = 0, address = page 11\<rparr>, \<lparr>index = 1, address = page 12\<rparr>,
              \<lparr>index = 2, address = page 13\<rparr>, \<lparr>index = 3, address = page 14\<rparr>,
              \<lparr>index = 4, address = page 15\<rparr>]
   \<and> collectLeaves flakyWorld (page 0) (Suc (Suc 0)) ([], initialState)
       = (None, depthFirstLeaves exampleTree (Suc (Suc 0)) (page 0),
          snd (snd (collectLeaves flakyWorld (page 0) (Suc (Suc 0)) ([], initialState))))
   \<and> fst (snd (collectLeaves flakyWorld (page 0) (Suc (Suc 0)) ([], initialState)))
       = [page 11, page 12, page 13, page 14, page 15]
   \<and> consistent steadyWorld exampleTree
   \<and> collectLeaves steadyWorld (page 0) (Suc (Suc 0)) ([], initialState)
       = (None, [page 11, page 12, page 13, page 14, page 15],
          snd (snd (collectLeaves steadyWorld (page 0) (Suc (Suc 0)) ([], initialState))))"
proof -
  have c: "consistent flakyWorld exampleTree"
    by (simp add: consistent_def flakyWorld_def)
  have run: "fst (collectLeafAddresses flakyWorld (page 0) (Suc (Suc 0)) initialState)
       = Inr [\<lparr>index = 0, address = page 11\<rparr>, \<lparr>index = 1, address = page 12\<rparr>,
              \<lparr>index = 2, address = page 13\<rparr>, \<lparr>index = 3, address = page 14\<rparr>,
              \<lparr>index = 4, address = page 15\<rparr>]"
    by (simp add: run_defs flakyWorld_def exampleTree_def)
  obtain r t where rt: "collectLeafAddresses flakyWorld (page 0) (Suc (Suc 0)) initialState = (r, t)"
    by (cases "collectLeafAddresses flakyWorld (page 0) (Suc (Suc 0)) initialState")
  with run obtain ls where ls: "r = Inr ls" by simp
  from discovery_order[OF c, of "page 0" "Suc (Suc 0)" initialState] rt ls
  have a: "ls = descriptors 0 (depthFirstLeaves exampleTree (Suc (Suc 0)) (page 0))" by blast
  have run2: "fst (collectLeaves flakyWorld (page 0) (Suc (Suc 0)) ([], initialState)) = None"
    and run3: "fst (snd (collectLeaves flakyWorld (page 0) (Suc (Suc 0)) ([], initialState)))
       = [page 11, page 12, page 13, page 14, page 15]"
    by (simp_all add: run_defs flakyWorld_def exampleTree_def)
  obtain addrs t2 where
    cl: "collectLeaves flakyWorld (page 0) (Suc (Suc 0)) ([], initialState) = (None, addrs, t2)"
    using run2 by (cases "collectLeaves flakyWorld (page 0) (Suc (Suc 0)) ([], initialState)") auto
  from discovery_order[OF c, of "page 0" "Suc (Suc 0)" initialState] cl
  have b: "addrs = depthFirstLeaves exampleTree (Suc (Suc 0)) (page 0)" by blast
  have c2: "consistent steadyWorld exampleTree"
    by (simp add: consistent_def steadyWorld_def)
  have ok: "\<forall>a n. readPage steadyWorld a n = Some (exampleTree a)"
    by (simp add: steadyWorld_def)
  from discovery_order[OF c2, of "page 0" "Suc (Suc 0)" initialState] ok
  have d: "fst (collectLeaves steadyWorld (page 0) (Suc (Suc 0)) ([], initialState)) = None"
    "fst (snd (collectLeaves steadyWorld (page 0) (Suc (Suc 0)) ([], initialState)))
                = depthFirstLeaves exampleTree (Suc (Suc 0)) (page 0)"
    by blast+
  have df: "depthFirstLeaves exampleTree (Suc (Suc 0)) (page 0)
              = [page 11, page 12, page 13, page 14, page 15]"
    using run3 cl b by simp
  have st: "collectLeaves steadyWorld (page 0) (Suc (Suc 0)) ([], initialState)
       = (None, [page 11, page 12, page 13, page 14, page 15],
          snd (snd (collectLeaves steadyWorld (page 0) (Suc (Suc 0)) ([], initialState))))"
    using d unfolding df
    by (cases "collectLeaves steadyWorld (page 0) (Suc (Suc 0)) ([], initialState)") auto
  from c run rt ls a cl b run3 c2 st show ?thesis by simp
qed

text \<open>
  Claim C6.  Let \<open>a\<close> be a page whose read always fails.  (1) A read of \<open>a\<close> during
  discovery makes exactly three attempts, pausing 200 ms and then 400 ms
  (\<^verbatim>\<open>min(200 * 2^i, 2000)\<close>), and rejects.  (2) A branch node at \<open>a\<close> therefore logs the
  failure and throws, leaving the leaf list as it was.  (3) Whatever the tree, a discovery
  that reads \<open>a\<close> ends in the error: no leaf list is returned.  (4) A failed discovery is
  the failure of the whole load, which stops there without fetching anything.  (5) A page
  that cannot be fetched as a leaf is different: once discovery has returned, the load
  returns bytes (on a network whose aggregate answers carry one slot per address); failed
  leaves go to the retry rounds.
\<close>

theorem discovery_hard_failure:
  assumes dead: "\<forall>n. readPage w a n = None"
  shows "fetchChunkData w a 3 s =
           (Rejected, s\<lparr>reads := (reads s)(a := reads s a + 3),
                        trace := trace s @ [ReadCall a, Sleep 200, ReadCall a, Sleep 400, ReadCall a]\<rparr>)
       \<and> traverseNode w a (Suc d) (leaves, currentIndex, s) =
           (Some RpcError, leaves, currentIndex,
            log (TraverseFailed a)
              (s\<lparr>reads := (reads s)(a := reads s a + 3),
                 trace := trace s @ [ReadCall a, Sleep 200, ReadCall a, Sleep 400, ReadCall a]\<rparr>))
       \<and> (\<forall>res s'. collectLeafAddresses w rootChunk depth s = (res, s')
              \<and> ReadCall a \<in> set (newEvents s s') \<longrightarrow> res = Inl RpcError)
       \<and> (\<forall>e s1. collectLeafAddresses w rootChunk depth s = (Inl e, s1) \<longrightarrow>
              fetchTreeSequential w rootChunk depth s = (Inl e, s1))
       \<and> (aligned w \<longrightarrow>
            (\<forall>ls s1. collectLeafAddresses w rootChunk depth s = (Inr ls, s1) \<longrightarrow>
               (\<exists>finalData s'. fetchTreeSequential w rootChunk depth s = (Inr finalData, s'))))"
proof (intro conjI allI impI)
  show f: "fetchChunkData w a 3 s =
           (Rejected, s\<lparr>reads := (reads s)(a := reads s a + 3),
                        trace := trace s @ [ReadCall a, Sleep 200, ReadCall a, Sleep 400, ReadCall a]\<rparr>)"
    using dead by (intro fetchChunkData_3_rejected) simp_all
  then show "traverseNode w a (Suc d) (leaves, currentIndex, s) =
           (Some RpcError, leaves, currentIndex,
            log (TraverseFailed a)
              (s\<lparr>reads := (reads s)(a := reads s a + 3),
                 trace := trace s @ [ReadCall a, Sleep 200, ReadCall a, Sleep 400, ReadCall a]\<rparr>))"
    by simp
next
  fix res s'
  assume run: "collectLeafAddresses w rootChunk depth s = (res, s') \<and> ReadCall a \<in> set (newEvents s s')"
  obtain e ls ci t where t: "traverseNode w rootChunk depth ([], 0, s) = (e, ls, ci, t)"
    by (cases "traverseNode w rootChunk depth ([], 0, s)") auto
  show "res = Inl RpcError"
  proof (cases e)
    case None
    from traverse_never_reads_dead_page(1)[OF dead t[unfolded None]]
    obtain evs where "trace t = trace s @ evs" "ReadCall a \<notin> set evs" by auto
    then have "ReadCall a \<notin> set (newEvents s t)" by (simp add: newEvents_append)
    with run t None show ?thesis by (simp add: collectLeafAddresses_def)
  next
    case (Some err)
    from traverse_error_kind(1)[of w rootChunk depth "([], 0, s)"] t Some
    have "err = RpcError" by (cases err) auto
    with run t Some show ?thesis by (simp add: collectLeafAddresses_def)
  qed
next
  fix e s1
  assume "collectLeafAddresses w rootChunk depth s = (Inl e, s1)"
  then show "fetchTreeSequential w rootChunk depth s = (Inl e, s1)"
    by (simp add: fetchTreeSequential_def)
next
  fix ls s1
  assume "aligned w" "collectLeafAddresses w rootChunk depth s = (Inr ls, s1)"
  then show "\<exists>finalData s'. fetchTreeSequential w rootChunk depth s = (Inr finalData, s')"
    by (rule fetchTreeSequential_returns)
qed

theorem discovery_hard_failure_witness:
  "(\<forall>n. readPage deadBranchWorld (page 2) n = None)
   \<and> fst (collectLeafAddresses deadBranchWorld (page 0) (Suc (Suc 0)) initialState) = Inl RpcError
   \<and> fst (fetchTreeSequential deadBranchWorld (page 0) (Suc (Suc 0)) initialState) = Inl RpcError
   \<and> trace (snd (fetchTreeSequential deadBranchWorld (page 0) (Suc (Suc 0)) initialState)) =
       [ReadCall (page 0), ReadCall (page 1), ReadCall (page 2), Sleep 200, ReadCall (page 2),
        Sleep 400, ReadCall (page 2), Log (TraverseFailed (page 2)), Log (TraverseFailed (page 0))]"
proof -
  have dead: "\<forall>n. readPage deadBranchWorld (page 2) n = None"
    by (simp add: deadBranchWorld_def)
  have run: "fst (collectLeafAddresses deadBranchWorld (page 0) (Suc (Suc 0)) initialState) = Inl RpcError"
    and tr: "trace (snd (collectLeafAddresses deadBranchWorld (page 0) (Suc (Suc 0)) initialState)) =
       [ReadCall (page 0), ReadCall (page 1), ReadCall (page 2), Sleep 200, ReadCall (page 2),
        Sleep 400, ReadCall (page 2), Log (TraverseFailed (page 2)), Log (TraverseFailed (page 0))]"
    by (simp_all add: run_defs deadBranchWorld_def exampleTree_def)
  obtain s1 where c: "collectLeafAddresses deadBranchWorld (page 0) (Suc (Suc 0)) initialState
                        = (Inl RpcError, s1)"
    using run by (cases "collectLeafAddresses deadBranchWorld (page 0) (Suc (Suc 0)) initialState") auto
  from discovery_hard_failure[OF dead, of initialState _ _ _ "page 0" "Suc (Suc 0)"] c
  have "fetchTreeSequential deadBranchWorld (page 0) (Suc (Suc 0)) initialState = (Inl RpcError, s1)"
    by blast
  with dead run tr c show ?thesis by simp
qed

section \<open>Claims about the batch fetcher\<close>

text \<open>
  Claim C5, as stated, fails: \<^verbatim>\<open>loadChunksInBatches\<close> calls
  \<^verbatim>\<open>fetchChunksBatch(batchAddresses, 2)\<close>, so the aggregate call of a group is attempted
  twice, not three times.  On a network whose aggregate call would answer at the third
  attempt, the loader falls back to single reads after the second.
\<close>

theorem batch_retry_counterexample:
  "aggregate3 thirdTimeLuckyWorld 2 [page 11] = Some [\<lparr>slot_success = True, returnData = [1, 1, 1]\<rparr>]
   \<and> USE_MULTICALL thirdTimeLuckyWorld
   \<and> trace (snd (snd (loadChunksInBatches thirdTimeLuckyWorld [\<lparr>index = 0, address = page 11\<rparr>]
                        initialState)))
       = [AggregateCall [page 11], Sleep 300, AggregateCall [page 11], ReadCall (page 11)]"
  by (simp add: run_defs thirdTimeLuckyWorld_def exampleTree_def loadChunksInBatches_def
      loadBatches.simps loadBatch_def BATCH_SIZE_def fetchChunksBatch_def batchOrIndividually_def
      batchAttempts_step readAggregate3_def resultOf_def)

text \<open>
  Claim C5, amended.  \<^verbatim>\<open>fetchChunksBatch(addresses, retries)\<close> with aggregation enabled
  and a non-empty group issues one aggregated read and repeats the whole call up to
  \<open>retries\<close> times (3 by default, 2 as the batch fetcher calls it), pausing
  \<^verbatim>\<open>min(300 * 2^i, 3000)\<close> ms after a failed attempt: if attempt \<open>k\<close> is the first to
  answer, its slots are the result and no single read is made; if all \<open>retries\<close> attempts
  fail, the addresses are fetched one by one, in order, each by
  \<^verbatim>\<open>fetchChunkData(addr, retries)\<close>.  With aggregation disabled or an empty group the
  addresses are fetched one by one at once.  One group of \<^verbatim>\<open>loadChunksInBatches\<close> makes at
  most two aggregate calls.
\<close>

theorem batch_retry_then_fallback:
  "(USE_MULTICALL w \<and> addresses \<noteq> [] \<and> 0 < retries \<longrightarrow>
      (\<forall>k slots. k < retries \<and> (\<forall>j<k. aggregate3 w (aggs s + j) addresses = None)
           \<and> aggregate3 w (aggs s + k) addresses = Some slots \<longrightarrow>
         fetchChunksBatch w addresses retries s =
           (Some (map (parseResult w) slots),
            s\<lparr>aggs := aggs s + k + 1,
              trace := trace s @ failedAttempts addresses 0 k @ [AggregateCall addresses]\<rparr>))
    \<and> ((\<forall>j<retries. aggregate3 w (aggs s + j) addresses = None) \<longrightarrow>
         fetchChunksBatch w addresses retries s =
           (case fetchChunksIndividually w addresses retries
                   (s\<lparr>aggs := aggs s + retries,
                      trace := trace s @ failedAttempts addresses 0 (retries - 1)
                                 @ [AggregateCall addresses]\<rparr>) of
              (results, s2) \<Rightarrow> (Some results, s2))))
   \<and> (\<not> USE_MULTICALL w \<or> addresses = [] \<longrightarrow>
         fetchChunksBatch w addresses retries s =
           (case fetchChunksIndividually w addresses retries s of
              (results, s1) \<Rightarrow> (Some results, s1)))
   \<and> fetchChunksIndividually w (addr # addrs) retries s =
         (case fetchChunkData w addr retries s of
            (f, s1) \<Rightarrow>
              (case fetchChunksIndividually w addrs retries s1 of
                 (results, s2) \<Rightarrow> (resultOf f # results, s2)))
   \<and> (\<forall>leaves i chunks failed chunks' failed' s'.
         loadBatch w leaves i (chunks, failed, s) = (chunks', failed', s') \<longrightarrow>
         length (filter isAggregateCall (newEvents s s')) \<le> 2)"
proof (intro conjI allI impI)
  fix k slots
  assume a: "USE_MULTICALL w \<and> addresses \<noteq> [] \<and> 0 < retries"
    and b: "k < retries \<and> (\<forall>j<k. aggregate3 w (aggs s + j) addresses = None)
           \<and> aggregate3 w (aggs s + k) addresses = Some slots"
  from b have "batchAttempts loaderDelay w addresses retries 0 s =
     (Some (map (parseResult w) slots),
      s\<lparr>aggs := aggs s + k + 1,
        trace := trace s @ failedAttempts addresses 0 k @ [AggregateCall addresses]\<rparr>)"
    by (intro batchAttempts_success_after) auto
  with a show "fetchChunksBatch w addresses retries s =
           (Some (map (parseResult w) slots),
            s\<lparr>aggs := aggs s + k + 1,
              trace := trace s @ failedAttempts addresses 0 k @ [AggregateCall addresses]\<rparr>)"
    by (simp add: fetchChunksBatch_def batchOrIndividually_def)
next
  assume a: "USE_MULTICALL w \<and> addresses \<noteq> [] \<and> 0 < retries"
    and b: "\<forall>j<retries. aggregate3 w (aggs s + j) addresses = None"
  from a b batchAttempts_exhausted[of retries w s addresses loaderDelay]
  show "fetchChunksBatch w addresses retries s =
           (case fetchChunksIndividually w addresses retries
                   (s\<lparr>aggs := aggs s + retries,
                      trace := trace s @ failedAttempts addresses 0 (retries - 1)
                                 @ [AggregateCall addresses]\<rparr>) of
              (results, s2) \<Rightarrow> (Some results, s2))"
    by (simp add: fetchChunksBatch_def batchOrIndividually_def fetchChunksIndividually_def)
next
  assume "\<not> USE_MULTICALL w \<or> addresses = []"
  then show "fetchChunksBatch w addresses retries s =
           (case fetchChunksIndividually w addresses retries s of
              (results, s1) \<Rightarrow> (Some results, s1))"
    by (auto simp: fetchChunksBatch_def batchOrIndividually_def fetchChunksIndividually_def)
next
  show "fetchChunksIndividually w (addr # addrs) retries s =
         (case fetchChunkData w addr retries s of
            (f, s1) \<Rightarrow>
              (case fetchChunksIndividually w addrs retries s1 of
                 (results, s2) \<Rightarrow> (resultOf f # results, s2)))"
    by (simp add: fetchChunksIndividually_def fetchChunkData_def)
next
  fix leaves i chunks failed chunks' failed' s'
  assume "loadBatch w leaves i (chunks, failed, s) = (chunks', failed', s')"
  from loadBatch_calls[OF this] show "length (filter isAggregateCall (newEvents s s')) \<le> 2"
    by (auto simp: newEvents_append)
qed

theorem batch_retry_then_fallback_witness:
  "USE_MULTICALL thirdTimeLuckyWorld
   \<and> fetchChunksBatch thirdTimeLuckyWorld [page 11] 3 initialState =
       (Some [\<lparr>success = True, data = Some [1, 1, 1]\<rparr>],
        initialState\<lparr>aggs := 3,
          trace := [AggregateCall [page 11], Sleep 300, AggregateCall [page 11], Sleep 600,
                    AggregateCall [page 11]]\<rparr>)
   \<and> length (filter isAggregateCall
        (newEvents initialState
           (snd (snd (loadBatch thirdTimeLuckyWorld [\<lparr>index = 0, address = page 11\<rparr>] 0
                        ([], [], initialState)))))) \<le> 2"
proof -
  have m: "USE_MULTICALL thirdTimeLuckyWorld \<and> [page 11] \<noteq> [] \<and> 0 < (3::nat)"
    by (simp add: thirdTimeLuckyWorld_def)
  have k: "(2::nat) < 3 \<and> (\<forall>j<2. aggregate3 thirdTimeLuckyWorld (aggs initialState + j) [page 11] = None)
     \<and> aggregate3 thirdTimeLuckyWorld (aggs initialState + 2) [page 11]
         = Some [\<lparr>slot_success = True, returnData = [1, 1, 1]\<rparr>]"
    by (simp add: thirdTimeLuckyWorld_def initialState_def exampleTree_def)
  obtain c f s' where l: "loadBatch thirdTimeLuckyWorld [\<lparr>index = 0, address = page 11\<rparr>] 0
                        ([], [], initialState) = (c, f, s')"
    by (cases "loadBatch thirdTimeLuckyWorld [\<lparr>index = 0, address = page 11\<rparr>] 0 ([], [], initialState)")
      auto
  from batch_retry_then_fallback[of thirdTimeLuckyWorld "[page 11]" 3 initialState] m k
  have "fetchChunksBatch thirdTimeLuckyWorld [page 11] 3 initialState =
           (Some (map (parseResult thirdTimeLuckyWorld) [\<lparr>slot_success = True, returnData = [1, 1, 1]\<rparr>]),
            initialState\<lparr>aggs := aggs initialState + 2 + 1,
              trace := trace initialState @ failedAttempts [page 11] 0 2 @ [AggregateCall [page 11]]\<rparr>)"
    by blast
  moreover have "failedAttempts [page 11] 0 2
      = [AggregateCall [page 11], Sleep 300, AggregateCall [page 11], Sleep 600]"
    by (simp add: failedAttempts_def upt_conv_Cons)
  moreover from batch_retry_then_fallback[of thirdTimeLuckyWorld "[page 11]" 3 initialState] l
  have "length (filter isAggregateCall (newEvents initialState s')) \<le> 2" by blast
  ultimately show ?thesis
    using m l by (simp add: parseResult_def thirdTimeLuckyWorld_def initialState_def)
qed

section \<open>Claims about the whole load\<close>

text \<open>
  Claim C1, as stated, fails: nothing in the loader checks that every leaf has arrived.
  In the example the leaf with index 1 (at \<open>page 12\<close>) fails in the batch phase and in all
  five retry rounds; \<^verbatim>\<open>fetchTreeSequential\<close> still returns normally, with the bytes of the
  leaves 0 and 2 only.
\<close>

theorem incomplete_load_counterexample:
  "fst (collectLeafAddresses lossyWorld (page 1) (Suc 0) initialState)
     = Inr [\<lparr>index = 0, address = page 11\<rparr>, \<lparr>index = 1, address = page 12\<rparr>,
            \<lparr>index = 2, address = page 13\<rparr>]
   \<and> readPage lossyWorld (page 12) 0 = None
   \<and> fst (fetchTreeSequential lossyWorld (page 1) (Suc 0) initialState) = Inr [1, 1, 1, 3, 3, 3]"
  by (simp add: run_defs load_defs lossyWorld_def exampleTree_def)

text \<open>
  Claim C1, amended.  Take a network that keeps the readers' contracts: a read that
  answers gives the page's content, and an aggregate call that answers carries one slot
  per requested address with that address's content in every usable slot; which calls
  fail, and when, is arbitrary.  Then every load whose discovery returned the leaves
  returns normally.  Some leaves, \<open>lost\<close>, never reached Success by the end of the retry
  rounds; the result is the concatenation, in leaf-index order, of the payloads of all
  other leaves, each once.  Nothing of the lost leaves reaches the caller: when there are
  any, a log line gives their number.  A leaf is lost when its page is dead (no read
  ever answers and no aggregate slot for it is ever usable), and is not lost when every
  read of its page answers.
\<close>

theorem incomplete_load_is_logged:
  assumes "faithful w \<sigma>"
    and "collectLeafAddresses w rootChunk depth s = (Inr leaves, s1)"
  shows "\<exists>lost s'.
      fetchTreeSequential w rootChunk depth s =
        (Inr (concat (map (\<sigma> \<circ> address) (filter (\<lambda>lf. lf \<notin> set lost) leaves))), s')
    \<and> mset lost \<subseteq># mset leaves
    \<and> (lost \<noteq> [] \<longrightarrow> Log (PermanentlyFailed (length lost)) \<in> set (trace s'))
    \<and> (\<forall>lf\<in>set leaves. dead w (address lf) \<longrightarrow> lf \<in> set lost)
    \<and> (\<forall>lf\<in>set leaves. (\<forall>n. readPage w (address lf) n \<noteq> None) \<longrightarrow> lf \<notin> set lost)"
  using assms by (rule fetchTreeSequential_faithful)

theorem incomplete_load_is_logged_witness:
  "faithful mixedWorld exampleTree
   \<and> dead mixedWorld (page 13)
   \<and> fst (collectLeafAddresses mixedWorld (page 1) (Suc 0) initialState) = Inr threeLeaves
   \<and> map chunk_index (fst (loadChunksInBatches mixedWorld threeLeaves initialState)) = [1]
   \<and> map chunk_index (fst (snd (retryFailedChunks mixedWorld
         (fst (snd (loadChunksInBatches mixedWorld threeLeaves initialState)))
         (fst (loadChunksInBatches mixedWorld threeLeaves initialState)) initialState))) = [1, 0]
   \<and> fst (fetchTreeSequential mixedWorld (page 1) (Suc 0) initialState) = Inr [1, 1, 1, 2, 2, 2]
   \<and> Log (PermanentlyFailed 1)
       \<in> set (trace (snd (fetchTreeSequential mixedWorld (page 1) (Suc 0) initialState)))"
proof -
  have fa: "faithful mixedWorld exampleTree"
    by (simp add: faithful_def consistent_def mixedWorld_def)
  have dd: "dead mixedWorld (page 13)"
    by (simp add: dead_def mixedWorld_def)
  have d: "fst (collectLeafAddresses mixedWorld (page 1) (Suc 0) initialState) = Inr threeLeaves"
    by (simp add: run_defs mixedWorld_def exampleTree_def threeLeaves_def)
  then obtain s1 where
    disc: "collectLeafAddresses mixedWorld (page 1) (Suc 0) initialState = (Inr threeLeaves, s1)"
    by (cases "collectLeafAddresses mixedWorld (page 1) (Suc 0) initialState") auto
  have ld: "map chunk_index (fst (loadChunksInBatches mixedWorld threeLeaves initialState)) = [1]"
    and rt: "map chunk_index (fst (snd (retryFailedChunks mixedWorld
         (fst (snd (loadChunksInBatches mixedWorld threeLeaves initialState)))
         (fst (loadChunksInBatches mixedWorld threeLeaves initialState)) initialState))) = [1, 0]"
    and ev: "fst (fetchTreeSequential mixedWorld (page 1) (Suc 0) initialState) = Inr [1, 1, 1, 2, 2, 2]"
    by (simp_all add: run_defs load_defs mixedWorld_def exampleTree_def threeLeaves_def
        processResults.simps)
  from incomplete_load_is_logged[OF fa disc] obtain lost s' where
    run: "fetchTreeSequential mixedWorld (page 1) (Suc 0) initialState =
        (Inr (concat (map (exampleTree \<circ> address) (filter (\<lambda>lf. lf \<notin> set lost) threeLeaves))), s')" and
    sub: "mset lost \<subseteq># mset threeLeaves" and
    lg: "lost \<noteq> [] \<longrightarrow> Log (PermanentlyFailed (length lost)) \<in> set (trace s')" and
    de: "\<forall>lf\<in>set threeLeaves. dead mixedWorld (address lf) \<longrightarrow> lf \<in> set lost" and
    rd: "\<forall>lf\<in>set threeLeaves. (\<forall>n. readPage mixedWorld (address lf) n \<noteq> None) \<longrightarrow> lf \<notin> set lost"
    by blast
  from de dd have l2: "\<lparr>index = 2, address = page 13\<rparr> \<in> set lost"
    by (simp add: threeLeaves_def)
  from rd have l1: "\<lparr>index = 1, address = page 12\<rparr> \<notin> set lost"
    by (simp add: threeLeaves_def mixedWorld_def)
  have l0: "\<lparr>index = 0, address = page 11\<rparr> \<notin> set lost"
  proof
    assume "\<lparr>index = 0, address = page 11\<rparr> \<in> set lost"
    with run ev l2 show False by (simp add: threeLeaves_def exampleTree_def split: if_splits)
  qed
  from sub have dl: "distinct lost"
    by (rule distinct_submultiset) (simp add: threeLeaves_def)
  from sub have "set lost \<subseteq> set threeLeaves" by (metis set_mset_mono set_mset_mset)
  with l0 l1 l2 have "set lost = {\<lparr>index = 2, address = page 13\<rparr>}"
    by (auto simp: threeLeaves_def)
  with distinct_card[OF dl] have "length lost = 1" "lost \<noteq> []" by auto
  with lg run have "Log (PermanentlyFailed 1)
       \<in> set (trace (snd (fetchTreeSequential mixedWorld (page 1) (Suc 0) initialState)))"
    by simp
  with fa dd d ld rt ev show ?thesis by simp
qed

text \<open>
  Claim C2.  On a network without failures (every read answers the page's content; an
  aggregate call may still fail as a whole, but its slots are all usable), for every
  declared depth: \<^verbatim>\<open>fetchTreeSequential\<close> returns the concatenation of the leaf payloads in
  depth-first order, whose length is the sum of their lengths.  If those payloads are the
  pieces \<^verbatim>\<open>chunkBuffer\<close> cut a content into, the result is that content.
\<close>

theorem round_trip:
  assumes "served w \<sigma> {}"
  shows "fst (fetchTreeSequential w rootChunk depth s)
           = Inr (concat (map \<sigma> (depthFirstLeaves \<sigma> depth rootChunk)))
       \<and> length (concat (map \<sigma> (depthFirstLeaves \<sigma> depth rootChunk)))
           = sum_list (map (length \<circ> \<sigma>) (depthFirstLeaves \<sigma> depth rootChunk))
       \<and> (\<forall>content n. chunkBuffer content n = Some (map \<sigma> (depthFirstLeaves \<sigma> depth rootChunk))
            \<longrightarrow> fst (fetchTreeSequential w rootChunk depth s) = Inr content)"
proof -
  from assms have ok: "\<forall>a n. readPage w a n = Some (\<sigma> a)" by (simp add: served_def)
  obtain e ls ci t where r: "traverseNode w rootChunk depth ([], 0, s) = (e, ls, ci, t)"
    by (cases "traverseNode w rootChunk depth ([], 0, s)") auto
  with traverse_error_free(1)[OF ok, of rootChunk depth "([], 0, s)"] have e: "e = None" by simp
  from traverse_order(1)[OF served_consistent[OF assms] r[unfolded e]]
  have ls: "ls = descriptors 0 (depthFirstLeaves \<sigma> depth rootChunk)" by simp
  from r e have disc: "collectLeafAddresses w rootChunk depth s = (Inr ls, t)"
    by (simp add: collectLeafAddresses_def)
  from fetchTreeSequential_served[OF assms disc]
  have main: "fst (fetchTreeSequential w rootChunk depth s)
           = Inr (concat (map \<sigma> (depthFirstLeaves \<sigma> depth rootChunk)))"
    by (auto simp: ls simp flip: map_map)
  moreover have "length (concat (map \<sigma> (depthFirstLeaves \<sigma> depth rootChunk)))
           = sum_list (map (length \<circ> \<sigma>) (depthFirstLeaves \<sigma> depth rootChunk))"
    by (simp add: length_concat)
  moreover have "\<forall>content n. chunkBuffer content n = Some (map \<sigma> (depthFirstLeaves \<sigma> depth rootChunk))
            \<longrightarrow> fst (fetchTreeSequential w rootChunk depth s) = Inr content"
    using main by (auto dest: chunkBuffer_concat)
  ultimately show ?thesis by blast
qed

theorem round_trip_witness:
  "served steadyWorld exampleTree {}
   \<and> chunkBuffer [1, 1, 1, 2, 2, 2, 3, 3, 3, 4, 4, 4, 5] 3
       = Some (map exampleTree (depthFirstLeaves exampleTree (Suc (Suc 0)) (page 0)))
   \<and> fst (fetchTreeSequential steadyWorld (page 0) (Suc (Suc 0)) initialState)
       = Inr [1, 1, 1, 2, 2, 2, 3, 3, 3, 4, 4, 4, 5]
   \<and> fst (fetchTreeSequential steadyWorld (page 1) (Suc 0) initialState)
       = Inr [1, 1, 1, 2, 2, 2, 3, 3, 3]
   \<and> fst (fetchTreeSequential steadyWorld (page 15) 0 initialState) = Inr [5]"
proof -
  have srv: "served steadyWorld exampleTree {}"
    by (auto simp: served_def steadyWorld_def parseResult_def outcome_def stripHeader_def)
  have cb: "chunkBuffer [1, 1, 1, 2, 2, 2, 3, 3, 3, 4, 4, 4, 5] 3
       = Some (map exampleTree (depthFirstLeaves exampleTree (Suc (Suc 0)) (page 0)))"
    by (simp add: chunkBuffer_def chunksFrom.simps exampleTree_def)
  from round_trip[OF srv, of "page 0" "Suc (Suc 0)" initialState] cb
  have "fst (fetchTreeSequential steadyWorld (page 0) (Suc (Suc 0)) initialState)
       = Inr [1, 1, 1, 2, 2, 2, 3, 3, 3, 4, 4, 4, 5]" by blast
  moreover from round_trip[OF srv, of "page 1" "Suc 0" initialState]
  have "fst (fetchTreeSequential steadyWorld (page 1) (Suc 0) initialState)
       = Inr [1, 1, 1, 2, 2, 2, 3, 3, 3]" by (simp add: exampleTree_def)
  moreover from round_trip[OF srv, of "page 15" 0 initialState]
  have "fst (fetchTreeSequential steadyWorld (page 15) 0 initialState) = Inr [5]"
    by (simp add: exampleTree_def)
  ultimately show ?thesis using srv cb by blast
qed

section \<open>Claims about repeated payloads\<close>

text \<open>
  Claim C10.  The batched reader answers with one slot per requested address, and
  discovery gives the leaves distinct indices.  Then the batch phase puts no leaf both
  into \<^verbatim>\<open>chunks\<close> and into \<^verbatim>\<open>failed\<close>; the retry phase does not throw and only adds
  entries for leaves of \<^verbatim>\<open>failed\<close>, each at most once; so after both phases the indices
  in \<^verbatim>\<open>chunks\<close> are distinct indices of leaves, every entry has its data, and the
  assembled buffer is the concatenation of the entries' bytes in strictly increasing
  index order: no payload occurs twice.
\<close>

theorem no_duplicate_payload:
  assumes "aligned w" and "distinct (map index leaves)"
    and "loadChunksInBatches w leaves s = (chunks, failed, s1)"
    and "retryFailedChunks w failed chunks s2 = (e, chunks', s3)"
  shows "e = None
       \<and> (\<exists>lfs. failed = map Some lfs \<and> set (map chunk_index chunks) \<inter> set (map index lfs) = {})
       \<and> distinct (map chunk_index chunks')
       \<and> set (map chunk_index chunks') \<subseteq> set (map index leaves)
       \<and> sorted_wrt (<) (map chunk_index (sort_key chunk_index chunks'))
       \<and> assemble (sort_key chunk_index chunks')
           = Some (concat (map chunkBytes (sort_key chunk_index chunks')))"
proof -
  from load_then_retry_distinct[OF assms] have
    a: "e = None"
       "\<exists>lfs. failed = map Some lfs \<and> set (map chunk_index chunks) \<inter> set (map index lfs) = {}"
       "distinct (map chunk_index chunks')"
       "set (map chunk_index chunks') \<subseteq> set (map index leaves)"
       "\<forall>c\<in>set chunks'. \<exists>d. chunk_data c = Some d"
    by blast+
  have "mset (map chunk_index (sort_key chunk_index chunks')) = mset (map chunk_index chunks')"
    by simp
  with a(3) have "distinct (map chunk_index (sort_key chunk_index chunks'))"
    by (metis mset_eq_imp_distinct_iff)
  then have s: "sorted_wrt (<) (map chunk_index (sort_key chunk_index chunks'))"
    by (simp add: strict_sorted_iff)
  from a(5) have "\<forall>c\<in>set (sort_key chunk_index chunks'). \<exists>d. chunk_data c = Some d" by simp
  from assemble_concat[OF this] a(1-4) s show ?thesis by blast
qed

theorem no_duplicate_payload_witness:
  "aligned flakyLeafWorld \<and> distinct (map index threeLeaves)
   \<and> fst (loadChunksInBatches flakyLeafWorld threeLeaves initialState)
       = [\<lparr>chunk_index = 0, chunk_data = Some [1, 1, 1]\<rparr>,
          \<lparr>chunk_index = 2, chunk_data = Some [3, 3, 3]\<rparr>]
   \<and> fst (snd (loadChunksInBatches flakyLeafWorld threeLeaves initialState))
       = [Some \<lparr>index = 1, address = page 12\<rparr>]
   \<and> fst (snd (retryFailedChunks flakyLeafWorld
                  (fst (snd (loadChunksInBatches flakyLeafWorld threeLeaves initialState)))
                  (fst (loadChunksInBatches flakyLeafWorld threeLeaves initialState))
                  (snd (snd (loadChunksInBatches flakyLeafWorld threeLeaves initialState)))))
       = [\<lparr>chunk_index = 0, chunk_data = Some [1, 1, 1]\<rparr>,
          \<lparr>chunk_index = 2, chunk_data = Some [3, 3, 3]\<rparr>,
          \<lparr>chunk_index = 1, chunk_data = Some [2, 2, 2]\<rparr>]
   \<and> distinct (map chunk_index (fst (snd (retryFailedChunks flakyLeafWorld
                  (fst (snd (loadChunksInBatches flakyLeafWorld threeLeaves initialState)))
                  (fst (loadChunksInBatches flakyLeafWorld threeLeaves initialState))
                  (snd (snd (loadChunksInBatches flakyLeafWorld threeLeaves initialState)))))))"
proof -
  have al: "aligned flakyLeafWorld" by (simp add: aligned_def flakyLeafWorld_def)
  have di: "distinct (map index threeLeaves)" by (simp add: threeLeaves_def)
  obtain chunks failed s1 where
    ld: "loadChunksInBatches flakyLeafWorld threeLeaves initialState = (chunks, failed, s1)"
    by (cases "loadChunksInBatches flakyLeafWorld threeLeaves initialState") auto
  obtain e chunks' s3 where
    rt: "retryFailedChunks flakyLeafWorld failed chunks s1 = (e, chunks', s3)"
    by (cases "retryFailedChunks flakyLeafWorld failed chunks s1") auto
  have ev: "fst (loadChunksInBatches flakyLeafWorld threeLeaves initialState)
       = [\<lparr>chunk_index = 0, chunk_data = Some [1, 1, 1]\<rparr>,
          \<lparr>chunk_index = 2, chunk_data = Some [3, 3, 3]\<rparr>]"
    "fst (snd (loadChunksInBatches flakyLeafWorld threeLeaves initialState))
       = [Some \<lparr>index = 1, address = page 12\<rparr>]"
    "fst (snd (retryFailedChunks flakyLeafWorld
                  (fst (snd (loadChunksInBatches flakyLeafWorld threeLeaves initialState)))
                  (fst (loadChunksInBatches flakyLeafWorld threeLeaves initialState))
                  (snd (snd (loadChunksInBatches flakyLeafWorld threeLeaves initialState)))))
       = [\<lparr>chunk_index = 0, chunk_data = Some [1, 1, 1]\<rparr>,
          \<lparr>chunk_index = 2, chunk_data = Some [3, 3, 3]\<rparr>,
          \<lparr>chunk_index = 1, chunk_data = Some [2, 2, 2]\<rparr>]"
    by (simp_all add: run_defs load_defs flakyLeafWorld_def exampleTree_def threeLeaves_def)
  from no_duplicate_payload[OF al di ld rt] have "distinct (map chunk_index chunks')" by blast
  with al di ev ld rt show ?thesis by simp
qed

section \<open>Claims about the retry rounds\<close>






section \<open>Claims about the video segments\<close>

text \<open>
  Claim C9, as stated, fails for a segment whose byte range ends beyond the content:
  \<^verbatim>\<open>slice\<close> clamps to the bytes that are there.  With chunks of 8, 8 and 3 bytes, a
  chunk size of 8 and a header of 2 bytes, the segment from 10 to 18 is covered by
  chunk 2 alone, which is in the map; every chunk but the last has 8 bytes; and
  \<^verbatim>\<open>extractSegmentData\<close> returns the 3 bytes of chunk 2, not \<open>byteEnd - byteStart = 8\<close>.
\<close>

theorem segment_bytes_counterexample:
  "CHUNK_SIZE videoWorld = 8
   \<and> map (\<lambda>i. map_option length (chunkDataMap shortTailVideo i)) [0, 1, 2] = [Some 8, Some 8, Some 3]
   \<and> byteStart (adjustSegmentOffsets videoWorld shortTailVideo videoSegments ! 2) = 10
   \<and> byteEnd (adjustSegmentOffsets videoWorld shortTailVideo videoSegments ! 2) = 18
   \<and> adjustedChunkStart (adjustSegmentOffsets videoWorld shortTailVideo videoSegments ! 2) = 2
   \<and> adjustedChunkEnd (adjustSegmentOffsets videoWorld shortTailVideo videoSegments ! 2) = 3
   \<and> isSegmentComplete shortTailVideo (adjustSegmentOffsets videoWorld shortTailVideo videoSegments ! 2)
   \<and> extractSegmentData videoWorld shortTailVideo
         (adjustSegmentOffsets videoWorld shortTailVideo videoSegments ! 2) = Some [20, 21, 22]"
  by (simp add: CHUNK_SIZE_def videoWorld_def shortTailVideo_def videoSegments_def
      adjustSegmentOffsets_def isSegmentComplete_def extractSegmentData_def sliceArray_def
      ceilDiv_def Let_def upt_conv_Cons)

text \<open>
  Claim C9, amended.  Let \<open>cs\<close> be the chunks of the whole content, every one but possibly
  the last of \<^verbatim>\<open>CHUNK_SIZE\<close> bytes, and let \<open>seg\<close> be a segment as \<^verbatim>\<open>adjustSegmentOffsets\<close>
  made it, all of whose covering chunk numbers, from \<^verbatim>\<open>adjustedChunkStart\<close> up to but not
  including \<^verbatim>\<open>adjustedChunkEnd\<close>, are in the chunk map with the chunks of the content.
  Then the segment is complete, its adjusted offsets are its declared ones plus
  \<open>4 + headerLength\<close>, and \<^verbatim>\<open>extractSegmentData\<close> returns the bytes of the content from
  \<open>byteStart + 4 + headerLength\<close> up to \<open>byteEnd + 4 + headerLength\<close>, as far as the content
  has them: when that range lies within the content, exactly \<open>byteEnd - byteStart\<close>
  bytes, the \<open>j\<close>-th of which is the byte of the content at
  \<open>byteStart + 4 + headerLength + j\<close>.
\<close>

theorem segment_bytes:
  assumes "\<forall>i<length cs - 1. length (cs ! i) = CHUNK_SIZE w"
    and "seg \<in> set (adjustSegmentOffsets w v segs)"
    and "\<forall>i\<in>set [adjustedChunkStart seg..<adjustedChunkEnd seg].
           i < length cs \<and> chunkDataMap v i = Some (cs ! i)"
  shows "isSegmentComplete v seg
       \<and> adjustedByteStart seg = byteStart seg + 4 + headerLength v
       \<and> adjustedByteEnd seg = byteEnd seg + 4 + headerLength v
       \<and> extractSegmentData w v seg =
           Some (take (byteEnd seg - byteStart seg)
                   (drop (byteStart seg + 4 + headerLength v) (concat cs)))
       \<and> (byteStart seg \<le> byteEnd seg \<and> byteEnd seg + 4 + headerLength v \<le> length (concat cs) \<longrightarrow>
            (\<exists>d. extractSegmentData w v seg = Some d
               \<and> length d = byteEnd seg - byteStart seg
               \<and> (\<forall>j<byteEnd seg - byteStart seg.
                     d ! j = concat cs ! (byteStart seg + 4 + headerLength v + j))))"
proof -
  from assms(2) have
    a: "adjustedChunkStart seg = (byteStart seg + (4 + headerLength v)) div CHUNK_SIZE w" and
    b: "adjustedChunkEnd seg = ceilDiv (byteEnd seg + (4 + headerLength v)) (CHUNK_SIZE w)" and
    c: "adjustedByteStart seg = byteStart seg + 4 + headerLength v"
       "adjustedByteEnd seg = byteEnd seg + 4 + headerLength v"
    by (auto simp: adjustSegmentOffsets_def Let_def)
  have comp: "isSegmentComplete v seg"
    using assms(3) by (simp add: isSegmentComplete_def list_all_iff)
  have ex: "extractSegmentData w v seg =
           Some (take (byteEnd seg - byteStart seg)
                   (drop (byteStart seg + 4 + headerLength v) (concat cs)))"
    using extract_bytes[OF assms(1) assms(3) a b] by (simp add: add.assoc)
  have len: "byteStart seg \<le> byteEnd seg \<and> byteEnd seg + 4 + headerLength v \<le> length (concat cs) \<longrightarrow>
            (\<exists>d. extractSegmentData w v seg = Some d
               \<and> length d = byteEnd seg - byteStart seg
               \<and> (\<forall>j<byteEnd seg - byteStart seg.
                     d ! j = concat cs ! (byteStart seg + 4 + headerLength v + j)))"
  proof
    assume h: "byteStart seg \<le> byteEnd seg \<and> byteEnd seg + 4 + headerLength v \<le> length (concat cs)"
    then have "length (take (byteEnd seg - byteStart seg)
                   (drop (byteStart seg + 4 + headerLength v) (concat cs)))
                 = byteEnd seg - byteStart seg"
      by simp arith
    moreover have "\<forall>j<byteEnd seg - byteStart seg.
        take (byteEnd seg - byteStart seg) (drop (byteStart seg + 4 + headerLength v) (concat cs)) ! j
          = concat cs ! (byteStart seg + 4 + headerLength v + j)"
      using h by simp
    ultimately show "\<exists>d. extractSegmentData w v seg = Some d
               \<and> length d = byteEnd seg - byteStart seg
               \<and> (\<forall>j<byteEnd seg - byteStart seg.
                     d ! j = concat cs ! (byteStart seg + 4 + headerLength v + j))"
      using ex by blast
  qed
  from comp c ex len show ?thesis by blast
qed

theorem segment_bytes_witness:
  "isSegmentComplete loadedVideo (adjustSegmentOffsets videoWorld loadedVideo videoSegments ! 0)
   \<and> adjustedChunkStart (adjustSegmentOffsets videoWorld loadedVideo videoSegments ! 0) = 0
   \<and> adjustedChunkEnd (adjustSegmentOffsets videoWorld loadedVideo videoSegments ! 0) = 2
   \<and> extractSegmentData videoWorld loadedVideo
         (adjustSegmentOffsets videoWorld loadedVideo videoSegments ! 0) = Some [10, 11, 12, 13]"
proof -
  let ?cs = "[videoTree (page 21), videoTree (page 22), videoTree (page 23)]"
  let ?seg = "adjustSegmentOffsets videoWorld loadedVideo videoSegments ! 0"
  have C: "CHUNK_SIZE videoWorld = 8" by (simp add: CHUNK_SIZE_def videoWorld_def)
  have seg: "?seg = \<lparr>seg_type = ''init'', byteStart = 0, byteEnd = 4, adjustedByteStart = 6,
                      adjustedByteEnd = 10, adjustedChunkStart = 0, adjustedChunkEnd = 2\<rparr>"
    by (simp add: adjustSegmentOffsets_def Let_def videoSegments_def loadedVideo_def C ceilDiv_def)
  have p1: "\<forall>i<length ?cs - 1. length (?cs ! i) = CHUNK_SIZE videoWorld"
    by (auto simp: C videoTree_def nth_Cons split: nat.splits)
  have p2: "?seg \<in> set (adjustSegmentOffsets videoWorld loadedVideo videoSegments)"
    by (rule nth_mem) (simp add: adjustSegmentOffsets_def Let_def videoSegments_def)
  have p3: "\<forall>i\<in>set [adjustedChunkStart ?seg..<adjustedChunkEnd ?seg].
           i < length ?cs \<and> chunkDataMap loadedVideo i = Some (?cs ! i)"
    unfolding seg by (simp add: loadedVideo_def upt_conv_Cons)
  from segment_bytes[OF p1 p2 p3] show ?thesis
    unfolding seg by (simp add: loadedVideo_def videoTree_def)
qed

section \<open>Claims about the streaming order\<close>



section \<open>Claims about a header that does not parse\<close>

text \<open>
  Claim C8 against the code.  \<^verbatim>\<open>init\<close> calls \<^verbatim>\<open>fallbackLoad\<close> when
  \<^verbatim>\<open>streamVideoWithSegments\<close> throws, when the browser has no \<^verbatim>\<open>MediaSource\<close>, and when the
  URL says \<^verbatim>\<open>raw=true\<close>.  A header that does not parse makes \<^verbatim>\<open>parseHeaderFromChunks\<close>
  return \<^verbatim>\<open>null\<close>, which is no error: the streaming goes on to its end without a segment
  map, hands nothing to the player, ends the stream and returns, and \<^verbatim>\<open>init\<close> does not
  fall back.  Two videos are loaded in streaming mode: a raw MP4 without header, whose
  bytes 4 to 27 are taken for the header and are no JSON, and a video that declares a
  header of 256 bytes in 16 bytes of content.  In both runs every chunk arrives, no
  buffer is appended and no blob is set.  With \<^verbatim>\<open>raw=true\<close> the same pages are played
  from the blob of the whole buffer.
\<close>

theorem header_failure_no_fallback:
  "\<not> forceRaw clipMedia \<and> mediaSourceSupported clipMedia
   \<and> getUint32 (rawMp4Tree (page 41)) = 24
   \<and> jsonParse clipMedia
         (take 24 (drop 4 (rawMp4Tree (page 41) @ rawMp4Tree (page 42) @ rawMp4Tree (page 43)
                            @ rawMp4Tree (page 44)))) = Null
   \<and> fst (init clipMedia rawMp4World (page 0) (Suc 0) (initialState, initialVideo)) = None
   \<and> player (snd (snd (init clipMedia rawMp4World (page 0) (Suc 0) (initialState, initialVideo))))
       = [ChunkSet 0, ChunkSet 1, ChunkSet 2, ChunkSet 3, EndOfStream, Play]
   \<and> getUint32 (hugeHeaderTree (page 21)) = 256
   \<and> fst (init clipMedia hugeHeaderWorld (page 0) (Suc 0) (initialState, initialVideo)) = None
   \<and> player (snd (snd (init clipMedia hugeHeaderWorld (page 0) (Suc 0) (initialState, initialVideo))))
       = [ChunkSet 0, ChunkSet 1, EndOfStream, Play]
   \<and> player (snd (snd (init rawMedia rawMp4World (page 0) (Suc 0) (initialState, initialVideo))))
       = [BlobSrc [0, 0, 0, 24, 102, 116, 121, 112, 69, 122, 175, 228,
                   91, 144, 197, 60, 113, 166, 219, 82, 135, 188, 51, 104,
                   157, 210, 73, 126, 179, 42, 95, 148], Play]
   \<and> player (snd (snd (init rawMedia hugeHeaderWorld (page 0) (Suc 0) (initialState, initialVideo))))
       = [BlobSrc [0, 0, 1, 0, 91, 93, 10, 11, 12, 13, 14, 15, 16, 17, 18, 19], Play]"
proof -
  have m: "\<not> forceRaw clipMedia" "mediaSourceSupported clipMedia"
    by (simp_all add: clipMedia_def)
  have t1: "fst (init clipMedia rawMp4World (page 0) (Suc 0) (initialState, initialVideo)) = None
     \<and> player (snd (snd (init clipMedia rawMp4World (page 0) (Suc 0) (initialState, initialVideo))))
         = [ChunkSet 0, ChunkSet 1, ChunkSet 2, ChunkSet 3, EndOfStream, Play]"
    by (simp add: run_defs video_defs rawMp4World_def clipMedia_def rawMp4Tree_def clipHeader_def
        upt_conv_Cons)
  have t2: "getUint32 (hugeHeaderTree (page 21)) = 256"
    by (simp add: getUint32_def hugeHeaderTree_def)
  have t0: "getUint32 (rawMp4Tree (page 41)) = 24"
    "jsonParse clipMedia
         (take 24 (drop 4 (rawMp4Tree (page 41) @ rawMp4Tree (page 42) @ rawMp4Tree (page 43)
                            @ rawMp4Tree (page 44)))) = Null"
    by (simp_all add: getUint32_def rawMp4Tree_def clipMedia_def clipHeader_def)
  have t3: "fst (init clipMedia hugeHeaderWorld (page 0) (Suc 0) (initialState, initialVideo)) = None
     \<and> player (snd (snd (init clipMedia hugeHeaderWorld (page 0) (Suc 0) (initialState, initialVideo))))
         = [ChunkSet 0, ChunkSet 1, EndOfStream, Play]"
    by (simp add: run_defs video_defs hugeHeaderWorld_def clipMedia_def hugeHeaderTree_def upt_conv_Cons)
  have t4: "player (snd (snd (init rawMedia rawMp4World (page 0) (Suc 0) (initialState, initialVideo))))
         = [BlobSrc [0, 0, 0, 24, 102, 116, 121, 112, 69, 122, 175, 228,
                   91, 144, 197, 60, 113, 166, 219, 82, 135, 188, 51, 104,
                   157, 210, 73, 126, 179, 42, 95, 148], Play]"
    by (simp add: run_defs video_defs rawMp4World_def rawMedia_def rawMp4Tree_def keepResults.simps)
  have t5: "player (snd (snd (init rawMedia hugeHeaderWorld (page 0) (Suc 0) (initialState, initialVideo))))
         = [BlobSrc [0, 0, 1, 0, 91, 93, 10, 11, 12, 13, 14, 15, 16, 17, 18, 19], Play]"
    by (simp add: run_defs video_defs hugeHeaderWorld_def rawMedia_def hugeHeaderTree_def keepResults.simps)
  from m t0 t1 t2 t3 t4 t5 show ?thesis by blast
qed

end
